theory Spec2Isabelle
  imports Complex_Main "HOL-Library.Multiset" "HOL-Library.Code_Target_Numeral"
begin

section \<open>Values of the language\<close>

text \<open>
  A Number is a double. The finite ones are carried by their mathematical value, a
  rational; the two zeros are not told apart (the program never divides by one and
  \<open>-0 !== 0\<close> is false).
\<close>

datatype jsnum = NaN | PosInf | NegInf | Fin rat

text \<open>
  The value \<open>JSON.parse\<close> builds. A JSON number is carried by the text that
  \<open>ToString\<close> gives for it, the only thing \<open>parseJsonInput\<close> reads of a number.
  \<open>JObj\<close> lists the members in the order of their creation (the order of the document).
\<close>

datatype json =
    JNull
  | JBool bool
  | JNum string
  | JStr string
  | JArr "json list"
  | JObj "(string \<times> json) list"

datatype jsval = VUndefined | VFunction | VJson json

datatype js_error = SyntaxError | TypeError | SingularError

subsection \<open>The rounding of an integer to a double\<close>

fun bit_length :: "nat \<Rightarrow> nat" where
  "bit_length n = (if n = 0 then 0 else Suc (bit_length (n div 2)))"

declare bit_length.simps [simp del]

text \<open>Round to nearest, ties to even, on 53 significant bits; \<open>2 ^ 1024\<close> and beyond overflow.\<close>

definition round_nat :: "nat \<Rightarrow> nat" where
  "round_nat n =
     (let e = bit_length n - 53;
          q = n div 2 ^ e;
          r = n mod 2 ^ e
      in if e = 0 then n
         else if 2 ^ (e - 1) < r \<or> (r = 2 ^ (e - 1) \<and> odd q) then (q + 1) * 2 ^ e
         else q * 2 ^ e)"

definition to_double :: "int \<Rightarrow> jsnum" where
  "to_double i =
     (let m = round_nat (nat \<bar>i\<bar>)
      in if 2 ^ 1024 \<le> m then (if i < 0 then NegInf else PosInf)
         else Fin (of_int (if i < 0 then - int m else int m)))"

subsection \<open>ToString and ToInt32\<close>

fun join_comma :: "string list \<Rightarrow> string" where
  "join_comma [] = []"
| "join_comma [s] = s"
| "join_comma (s # t # ts) = s @ '','' @ join_comma (t # ts)"

text \<open>
  \<open>ToString\<close> of an object tries its \<open>toString\<close>, then its \<open>valueOf\<close>. An object of the
  document that has a member \<open>toString\<close> of its own hides the inherited method behind a
  value that cannot be called, and \<open>valueOf\<close> gives no primitive: a TypeError is thrown.
  Without such a member the inherited method answers \<open>[object Object]\<close>. An array joins the
  texts of its elements, \<open>null\<close> counting as the empty text, and throws when one of them
  does.
\<close>

fun collect :: "(js_error + 'a) list \<Rightarrow> js_error + 'a list" where
  "collect [] = Inr []"
| "collect (r # rs) =
     (case r of
        Inl e \<Rightarrow> Inl e
      | Inr a \<Rightarrow> (case collect rs of Inl e \<Rightarrow> Inl e | Inr as \<Rightarrow> Inr (a # as)))"

fun json_to_string :: "json \<Rightarrow> js_error + string" where
  "json_to_string JNull = Inr ''null''"
| "json_to_string (JBool b) = Inr (if b then ''true'' else ''false'')"
| "json_to_string (JNum s) = Inr s"
| "json_to_string (JStr s) = Inr s"
| "json_to_string (JArr xs) =
     (case collect (map (\<lambda>x. if x = JNull then Inr [] else json_to_string x) xs) of
        Inl e \<Rightarrow> Inl e
      | Inr ss \<Rightarrow> Inr (join_comma ss))"
| "json_to_string (JObj ms) =
     (if ''toString'' \<in> set (map fst ms) then Inl TypeError else Inr ''[object Object]'')"

fun ToString :: "jsval \<Rightarrow> js_error + string" where
  "ToString VUndefined = Inr ''undefined''"
| "ToString VFunction = Inr ''function keys() { [native code] }''"
| "ToString (VJson j) = json_to_string j"

definition trunc_rat :: "rat \<Rightarrow> int" where
  "trunc_rat q = (if 0 \<le> q then \<lfloor>q\<rfloor> else \<lceil>q\<rceil>)"

definition ToInt32 :: "jsnum \<Rightarrow> int" where
  "ToInt32 x =
     (case x of
        Fin q \<Rightarrow> (let m = trunc_rat q mod 2 ^ 32 in if 2 ^ 31 \<le> m then m - 2 ^ 32 else m)
      | _ \<Rightarrow> 0)"

subsection \<open>parseInt\<close>

text \<open>
  Strings are lists of code units below 256. The white space that \<open>parseInt\<close> skips is,
  among those, TAB, LF, VT, FF, CR, SP and NBSP.
\<close>

definition is_ws :: "char \<Rightarrow> bool" where
  "is_ws c \<longleftrightarrow> (of_char c :: nat) \<in> {9, 10, 11, 12, 13, 32, 160}"

definition digit_val :: "char \<Rightarrow> nat option" where
  "digit_val c =
     (let n = (of_char c :: nat)
      in if 48 \<le> n \<and> n \<le> 57 then Some (n - 48)
         else if 97 \<le> n \<and> n \<le> 122 then Some (n - 87)
         else if 65 \<le> n \<and> n \<le> 90 then Some (n - 55)
         else None)"

definition radix_digit :: "nat \<Rightarrow> char \<Rightarrow> bool" where
  "radix_digit R c = (case digit_val c of None \<Rightarrow> False | Some d \<Rightarrow> d < R)"

definition digit_of :: "char \<Rightarrow> nat" where
  "digit_of c = (case digit_val c of None \<Rightarrow> 0 | Some d \<Rightarrow> d)"

definition mathInt :: "nat \<Rightarrow> string \<Rightarrow> nat" where
  "mathInt R Z = foldl (\<lambda>a c. a * R + digit_of c) 0 Z"

definition has_0x :: "string \<Rightarrow> bool" where
  "has_0x S = (case S of a # b # _ \<Rightarrow> a = CHR ''0'' \<and> (b = CHR ''x'' \<or> b = CHR ''X'') | _ \<Rightarrow> False)"

text \<open>
  The steps of \<open>parseInt(string, radix)\<close> in the language's definition. The first is
  \<open>ToString\<close> of the argument, which can throw. The others, on the text: skip the leading
  white space, take a sign, read the radix through \<open>ToInt32\<close> (0 stands for 10), strip
  \<open>0x\<close> when the radix is 0 or 16, keep the longest prefix of digits of the radix,
  answer \<open>NaN\<close> when it is empty and the double nearest to its value otherwise. (The
  language lets an implementation approximate the value of the digits, past the twentieth
  digit in radix 10 and in the radices that are not 2, 4, 8, 10, 16 or 32; the value is
  taken exactly here.)
\<close>

definition parse_text :: "string \<Rightarrow> jsnum \<Rightarrow> jsnum" where
  "parse_text inputString radix =
     (let S = dropWhile is_ws inputString;
          neg = (case S of c # _ \<Rightarrow> c = CHR ''-'' | [] \<Rightarrow> False);
          S1 = (case S of c # cs \<Rightarrow> if c = CHR ''+'' \<or> c = CHR ''-'' then cs else S | [] \<Rightarrow> S);
          R = ToInt32 radix
      in if R \<noteq> 0 \<and> (R < 2 \<or> 36 < R) then NaN
         else
           let strip = (R = 0 \<or> R = 16) \<and> has_0x S1;
               R2 = (if strip then 16 else if R = 0 then 10 else nat R);
               S2 = (if strip then drop 2 S1 else S1);
               Z = takeWhile (radix_digit R2) S2
           in if Z = [] then NaN
              else to_double (if neg then - int (mathInt R2 Z) else int (mathInt R2 Z)))"

definition parseInt :: "jsval \<Rightarrow> jsnum \<Rightarrow> js_error + jsnum" where
  "parseInt v radix =
     (case ToString v of Inl e \<Rightarrow> Inl e | Inr inputString \<Rightarrow> Inr (parse_text inputString radix))"

subsection \<open>Objects\<close>

text \<open>
  An object is the list of its properties in the order of their creation. Its own keys are
  enumerated (\<open>for-in\<close>, \<open>Object.keys\<close>, \<open>Object.entries\<close>) with the array indices first,
  in ascending order, and the other keys after them in the order of their creation. An array
  index is the canonical decimal text of an integer from 0 to \<open>2 ^ 32 - 2\<close>.
\<close>

definition index_or_0 :: "('k \<Rightarrow> nat option) \<Rightarrow> 'k \<Rightarrow> nat" where
  "index_or_0 ix key = (case ix key of None \<Rightarrow> 0 | Some i \<Rightarrow> i)"

definition enum_order :: "('k \<Rightarrow> nat option) \<Rightarrow> ('k \<times> 'v) list \<Rightarrow> ('k \<times> 'v) list" where
  "enum_order ix ps =
     sort_key (\<lambda>p. index_or_0 ix (fst p)) (filter (\<lambda>p. ix (fst p) \<noteq> None) ps)
     @ filter (\<lambda>p. ix (fst p) = None) ps"

definition string_index :: "string \<Rightarrow> nat option" where
  "string_index s =
     (if s \<noteq> [] \<and> list_all (radix_digit 10) s \<and> (s = ''0'' \<or> take 1 s \<noteq> ''0'')
         \<and> mathInt 10 s \<le> 4294967294
      then Some (mathInt 10 s) else None)"

text \<open>
  The objects the program creates itself (\<open>shares\<close>, \<open>selected\<close>) have keys of the form
  \<open>ToString(v)\<close>, for \<open>v\<close> a Number or \<open>undefined\<close>. \<open>ToString\<close> is injective on these and
  \<open>Number\<close> reads the Number back, so such a key is carried by the value it was made from.
\<close>

datatype pkey = KNum jsnum | KUndefined

type_synonym 'v obj = "(pkey \<times> 'v) list"

definition array_index :: "pkey \<Rightarrow> nat option" where
  "array_index key =
     (case key of
        KNum (Fin q) \<Rightarrow>
          if q = of_int \<lfloor>q\<rfloor> \<and> 0 \<le> q \<and> q \<le> 4294967294 then Some (nat \<lfloor>q\<rfloor>) else None
      | _ \<Rightarrow> None)"

definition own_entries :: "'v obj \<Rightarrow> (pkey \<times> 'v) list" where
  "own_entries ob = enum_order array_index ob"

fun obj_set :: "'v obj \<Rightarrow> pkey \<Rightarrow> 'v \<Rightarrow> 'v obj" where
  "obj_set [] key v = [(key, v)]"
| "obj_set ((key', v') # ps) key v =
     (if key' = key then (key', v) # ps else (key', v') # obj_set ps key v)"

definition key_number :: "pkey \<Rightarrow> jsnum" where
  "key_number key = (case key of KNum x \<Rightarrow> x | KUndefined \<Rightarrow> NaN)"

text \<open>
  Reading a property of a value of the document. The program reads the names \<open>keys\<close>,
  \<open>n\<close>, \<open>k\<close>, \<open>base\<close>, \<open>value\<close> and the own keys of the document; of these, only
  \<open>keys\<close> is found in a prototype, that of arrays, where it is a function. Reading a
  property of \<open>undefined\<close> or \<open>null\<close> throws a TypeError.
\<close>

definition read_prop :: "jsval \<Rightarrow> string \<Rightarrow> jsval" where
  "read_prop v name =
     (case v of
        VJson (JObj ms) \<Rightarrow> (case map_of ms name of None \<Rightarrow> VUndefined | Some j \<Rightarrow> VJson j)
      | VJson (JArr xs) \<Rightarrow>
          (case string_index name of
             Some i \<Rightarrow> if i < length xs then VJson (xs ! i) else VUndefined
           | None \<Rightarrow> if name = ''keys'' then VFunction else VUndefined)
      | VJson (JStr s) \<Rightarrow>
          (case string_index name of
             Some i \<Rightarrow> if i < length s then VJson (JStr [s ! i]) else VUndefined
           | None \<Rightarrow> VUndefined)
      | _ \<Rightarrow> VUndefined)"

definition get_prop :: "jsval \<Rightarrow> string \<Rightarrow> js_error + jsval" where
  "get_prop v name =
     (if v = VUndefined \<or> v = VJson JNull then Inl TypeError else Inr (read_prop v name))"

fun dec_string :: "nat \<Rightarrow> string" where
  "dec_string i =
     (if i < 10 then [char_of (48 + i)] else dec_string (i div 10) @ [char_of (48 + i mod 10)])"

declare dec_string.simps [simp del]

definition enum_keys :: "json \<Rightarrow> string list" where
  "enum_keys data =
     (case data of
        JObj ms \<Rightarrow> map fst (enum_order string_index ms)
      | JArr xs \<Rightarrow> map dec_string [0 ..< length xs]
      | _ \<Rightarrow> [])"

subsection \<open>Math.pow and Array.prototype.sort\<close>

text \<open>
  \<open>Math.pow(x, i)\<close> for an index \<open>i\<close> of an array. The program applies it to the indices
  of the shares, which \<open>parseInt\<close> makes whole: the power of a whole number is taken as
  correctly rounded to a double; on another finite number the exact power stands for the
  result.
\<close>

definition js_pow :: "jsnum \<Rightarrow> nat \<Rightarrow> jsnum" where
  "js_pow x i =
     (if i = 0 then Fin 1
      else case x of
        NaN \<Rightarrow> NaN
      | PosInf \<Rightarrow> PosInf
      | NegInf \<Rightarrow> (if odd i then NegInf else PosInf)
      | Fin q \<Rightarrow> if q = of_int \<lfloor>q\<rfloor> then to_double (\<lfloor>q\<rfloor> ^ i) else Fin (q ^ i))"

text \<open>
  \<open>sub_negative a b\<close>: the comparator \<open>(a, b) => a - b\<close> answers a negative number.
  A sort with this comparator is fixed by the language when no element is \<open>NaN\<close>; it is
  modelled as a stable insertion sort.
\<close>

definition sub_negative :: "jsnum \<Rightarrow> jsnum \<Rightarrow> bool" where
  "sub_negative a b =
     (case (a, b) of
        (Fin p, Fin q) \<Rightarrow> p < q
      | (Fin p, PosInf) \<Rightarrow> True
      | (NegInf, Fin q) \<Rightarrow> True
      | (NegInf, PosInf) \<Rightarrow> True
      | _ \<Rightarrow> False)"

fun sort_insert :: "jsnum \<Rightarrow> jsnum list \<Rightarrow> jsnum list" where
  "sort_insert x [] = [x]"
| "sort_insert x (y # ys) = (if sub_negative x y then x # y # ys else y # sort_insert x ys)"

definition js_sort :: "jsnum list \<Rightarrow> jsnum list" where
  "js_sort xs = foldl (\<lambda>acc x. sort_insert x acc) [] xs"

subsection \<open>The linear solver\<close>

text \<open>
  Modelled from the spec: \<open>math.lusolve\<close> belongs to the library \<open>mathjs\<close>, which is not
  among the sources. The spec has it solve the linear system \<open>A \<cdot> coeffs = y\<close> and fail on
  a singular one. The model solves the system in exact rational arithmetic, by elimination,
  so the rounding of the library's double arithmetic is not represented; a system with an
  entry that is not finite is given the answer \<open>NaN\<close> throughout. The column it returns is
  the list of its entries.
\<close>

definition lead :: "rat list \<Rightarrow> rat" where
  "lead r = (case r of [] \<Rightarrow> 0 | a # _ \<Rightarrow> a)"

definition eliminate :: "rat list \<Rightarrow> rat list \<Rightarrow> rat list" where
  "eliminate p r = map2 (\<lambda>a b. b - lead r / lead p * a) (tl p) (tl r)"

definition back_subst :: "rat list \<Rightarrow> rat list \<Rightarrow> rat" where
  "back_subst p sol =
     (last p - sum_list (map2 (\<lambda>a x. a * x) (butlast (tl p)) sol)) / lead p"

fun gauss :: "nat \<Rightarrow> rat list list \<Rightarrow> rat list option" where
  "gauss 0 rows = Some []"
| "gauss (Suc m) rows =
     (case find (\<lambda>r. lead r \<noteq> 0) rows of
        None \<Rightarrow> None
      | Some p \<Rightarrow>
          (case gauss m (map (eliminate p) (remove1 p rows)) of
             None \<Rightarrow> None
           | Some sol \<Rightarrow> Some (back_subst p sol # sol)))"

definition fin_val :: "jsnum \<Rightarrow> rat" where
  "fin_val x = (case x of Fin q \<Rightarrow> q | _ \<Rightarrow> 0)"

definition is_fin :: "jsnum \<Rightarrow> bool" where
  "is_fin x = (case x of Fin q \<Rightarrow> True | _ \<Rightarrow> False)"

definition lusolve_exact :: "jsnum list list \<Rightarrow> jsnum list \<Rightarrow> js_error + jsnum list" where
  "lusolve_exact A b =
     (if list_all (list_all is_fin) A \<and> list_all is_fin b
      then (case gauss (length b) (map2 (\<lambda>r y. map fin_val r @ [fin_val y]) A b) of
              None \<Rightarrow> Inl SingularError
            | Some sol \<Rightarrow> Inr (map Fin sol))
      else Inr (replicate (length b) NaN))"

section \<open>The program\<close>

definition convertToDecimal :: "jsval \<Rightarrow> jsnum \<Rightarrow> js_error + jsnum" where
  "convertToDecimal valueStr base = parseInt valueStr base"

record parsed =
  parsed_n :: jsval
  parsed_k :: jsval
  parsed_shares :: "jsnum obj"

text \<open>
  The body of the loop \<open>for (const key in data)\<close>, over the keys still to visit. Reading
  \<open>data[key].base\<close> throws when the entry is \<open>null\<close>, and \<open>parseInt\<close> throws when the base
  or the value has no text.
\<close>

fun parse_loop :: "json \<Rightarrow> string list \<Rightarrow> jsnum obj \<Rightarrow> js_error + jsnum obj" where
  "parse_loop data [] shares = Inr shares"
| "parse_loop data (key # keys) shares =
     (if key = ''keys'' then parse_loop data keys shares
      else
        case parseInt (VJson (JStr key)) (Fin 10) of
          Inl e \<Rightarrow> Inl e
        | Inr x \<Rightarrow>
        case get_prop (read_prop (VJson data) key) ''base'' of
          Inl e \<Rightarrow> Inl e
        | Inr b \<Rightarrow>
        case parseInt b (Fin 10) of
          Inl e \<Rightarrow> Inl e
        | Inr base \<Rightarrow>
        case get_prop (read_prop (VJson data) key) ''value'' of
          Inl e \<Rightarrow> Inl e
        | Inr v \<Rightarrow>
        case convertToDecimal v base of
          Inl e \<Rightarrow> Inl e
        | Inr y \<Rightarrow> parse_loop data keys (obj_set shares (KNum x) y))"

text \<open>
  The argument is what \<open>JSON.parse(jsonInput)\<close> gives: \<open>None\<close> when it throws a SyntaxError,
  the text not being JSON, and the value it builds otherwise.
\<close>

definition parseJsonInput :: "json option \<Rightarrow> js_error + parsed" where
  "parseJsonInput parsed_text =
     (case parsed_text of
        None \<Rightarrow> Inl SyntaxError
      | Some data \<Rightarrow>
          (case get_prop (VJson data) ''keys'' of
             Inl e \<Rightarrow> Inl e
           | Inr ks \<Rightarrow>
               (case get_prop ks ''n'' of
                  Inl e \<Rightarrow> Inl e
                | Inr n \<Rightarrow>
                    (case get_prop ks ''k'' of
                       Inl e \<Rightarrow> Inl e
                     | Inr k \<Rightarrow>
                         (case parse_loop data (enum_keys data) [] of
                            Inl e \<Rightarrow> Inl e
                          | Inr shares \<Rightarrow>
                              Inr \<lparr>parsed_n = n, parsed_k = k, parsed_shares = shares\<rparr>)))))"

text \<open>
  \<open>k\<close> is the bound of the loop \<open>for (let i = 0; i < k; i++)\<close>, a natural number here.
  \<open>sortedKeys[i]\<close> is \<open>undefined\<close> from the length of the array on, and so is
  \<open>shares[key]\<close> for a key that \<open>shares\<close> does not have.
\<close>

definition select_step :: "jsnum obj \<Rightarrow> jsnum list \<Rightarrow> jsnum option obj \<Rightarrow> nat \<Rightarrow> jsnum option obj" where
  "select_step shares sortedKeys selected i =
     (let key = (if i < length sortedKeys then KNum (sortedKeys ! i) else KUndefined)
      in obj_set selected key (map_of shares key))"

definition selectShares :: "jsnum obj \<Rightarrow> nat \<Rightarrow> jsnum option obj" where
  "selectShares shares k =
     (let sortedKeys = js_sort (map (\<lambda>p. key_number (fst p)) (own_entries shares))
      in foldl (select_step shares sortedKeys) [] [0 ..< k])"

text \<open>
  \<open>Number(y)\<close> is \<open>y\<close> for a Number and \<open>NaN\<close> for \<open>undefined\<close>. The solver is the
  library's, a parameter here.
\<close>

definition reconstructPolynomial ::
  "(jsnum list list \<Rightarrow> jsnum list \<Rightarrow> js_error + jsnum list) \<Rightarrow> jsnum option obj \<Rightarrow> js_error + jsnum list" where
  "reconstructPolynomial lusolve selectedShares =
     (let xs = map (\<lambda>p. key_number (fst p)) (own_entries selectedShares);
          ys = map (\<lambda>p. case snd p of None \<Rightarrow> NaN | Some y \<Rightarrow> y) (own_entries selectedShares);
          A = map (\<lambda>x. map (\<lambda>i. js_pow x i) (rev [0 ..< length xs])) xs
      in lusolve A ys)"

definition findConstantTerm :: "jsnum list \<Rightarrow> jsnum option" where
  "findConstantTerm coeffs = (if coeffs = [] then None else Some (last coeffs))"

text \<open>
  The display of the polynomial, in \<open>main\<close> and in \<open>reconstruct\<close>. The conversion of a
  Number to text, in the template literals, is a parameter.
\<close>

definition template :: "(jsnum \<Rightarrow> string) \<Rightarrow> jsnum option \<Rightarrow> string" where
  "template str v = (case v of None \<Rightarrow> ''undefined'' | Some c \<Rightarrow> str c)"

function terms_loop :: "(jsnum \<Rightarrow> string) \<Rightarrow> jsnum list \<Rightarrow> nat \<Rightarrow> string list \<Rightarrow> string list" where
  "terms_loop str coeffs i polynomialTerms =
     (if i < length coeffs - 1
      then
        let currentDegree = length coeffs - 1 - i;
            coeff = coeffs ! i
        in terms_loop str coeffs (i + 1)
             (if coeff \<noteq> Fin 0
              then polynomialTerms @
                [if currentDegree \<noteq> 0
                 then str coeff @ ''x^'' @ str (Fin (of_nat currentDegree))
                 else str coeff]
              else polynomialTerms)
      else polynomialTerms)"
  by pat_completeness auto
termination
  by (relation "measure (\<lambda>(str, coeffs, i, acc). length coeffs - 1 - i)") auto

declare terms_loop.simps [simp del]

definition polynomialTerms :: "(jsnum \<Rightarrow> string) \<Rightarrow> jsnum list \<Rightarrow> string list" where
  "polynomialTerms str coeffs =
     terms_loop str coeffs 0 [] @ [template str (findConstantTerm coeffs)]"

fun join_plus :: "string list \<Rightarrow> string" where
  "join_plus [] = []"
| "join_plus [s] = s"
| "join_plus (s # t # ts) = s @ '' + '' @ join_plus (t # ts)"

definition polynomial :: "(jsnum \<Rightarrow> string) \<Rightarrow> jsnum list \<Rightarrow> string" where
  "polynomial str coeffs = join_plus (polynomialTerms str coeffs)"

section \<open>Notions of the specification\<close>

text \<open>
  The value of a numeral by positional evaluation: the digit at position \<open>i\<close> from the left,
  of a numeral of \<open>l\<close> digits, counts \<open>b ^ (l - 1 - i)\<close> times.
\<close>

definition positional_value :: "nat \<Rightarrow> string \<Rightarrow> nat" where
  "positional_value b s = (\<Sum>i<length s. digit_of (s ! i) * b ^ (length s - Suc i))"

definition to_upper :: "char \<Rightarrow> char" where
  "to_upper c =
     (let n = (of_char c :: nat) in if 97 \<le> n \<and> n \<le> 122 then char_of (n - 32) else c)"

text \<open>
  Decoded shares with whole indices: the pair \<open>(i, y)\<close> is the property of key
  \<open>ToString(i)\<close> and value \<open>y\<close>, and the list gives the order of creation.
\<close>

definition share_key :: "nat \<Rightarrow> pkey" where
  "share_key i = KNum (Fin (of_nat i))"

definition shares_of :: "(nat \<times> 'v) list \<Rightarrow> 'v obj" where
  "shares_of ps = map (\<lambda>p. (share_key (fst p), snd p)) ps"

text \<open>
  What the parser reads of the member \<open>key\<close> of the document: the index \<open>parseInt(key, 10)\<close>
  and, of its entry, the decoded value, or the error of the decoding. The share entries are
  the members other than \<open>keys\<close>, in the order of their enumeration.
\<close>

definition share_index :: "string \<Rightarrow> jsnum" where
  "share_index key = parse_text key (Fin 10)"

definition entry_value :: "json \<Rightarrow> js_error + jsnum" where
  "entry_value entry =
     (case parseInt (read_prop (VJson entry) ''base'') (Fin 10) of
        Inl e \<Rightarrow> Inl e
      | Inr base \<Rightarrow> convertToDecimal (read_prop (VJson entry) ''value'') base)"

definition share_entries :: "(string \<times> json) list \<Rightarrow> (string \<times> json) list" where
  "share_entries ms = filter (\<lambda>p. fst p \<noteq> ''keys'') (enum_order string_index ms)"

text \<open>
  The values that \<open>ToString\<close> throws on: an object with a member \<open>toString\<close>, and an array
  that holds one, at any depth of arrays.
\<close>

fun no_text :: "json \<Rightarrow> bool" where
  "no_text (JObj ms) = (''toString'' \<in> set (map fst ms))"
| "no_text (JArr xs) = list_ex no_text xs"
| "no_text _ = False"

definition no_text_val :: "jsval \<Rightarrow> bool" where
  "no_text_val v = (case v of VJson j \<Rightarrow> no_text j | _ \<Rightarrow> False)"

text \<open>
  The value at \<open>x\<close> of the polynomial with coefficients \<open>cs\<close>, highest degree first: the
  coefficient \<open>cs[i]\<close>, of \<open>k\<close>, counts \<open>x ^ (k - 1 - i)\<close> times. \<open>dot\<close> is the product of a
  row with a column.
\<close>

definition poly_eval :: "rat list \<Rightarrow> rat \<Rightarrow> rat" where
  "poly_eval cs x = (\<Sum>i<length cs. cs ! i * x ^ (length cs - 1 - i))"

definition dot :: "rat list \<Rightarrow> rat list \<Rightarrow> rat" where
  "dot as xs = sum_list (map2 (\<lambda>a x. a * x) as xs)"

text \<open>
  Points with whole abscissas, as the object that \<open>reconstructPolynomial\<close> is given: the
  point \<open>(x, y)\<close> is the property of key \<open>ToString(x)\<close> and value \<open>y\<close>, and the list gives the
  order of creation.
\<close>

definition points_of :: "(int \<times> rat) list \<Rightarrow> jsnum option obj" where
  "points_of ps = map (\<lambda>p. (KNum (Fin (of_int (fst p))), Some (Fin (snd p)))) ps"

text \<open>
  The document that encodes shares: the member \<open>keys\<close> with \<open>n\<close> and \<open>k\<close>, then one member
  for each share, given by three texts: its key, its base and its value. A share is well
  encoded when its key is a decimal numeral, of the abscissa \<open>share_x\<close>, its base is a
  decimal numeral of a number from 2 to 36, and its value is a numeral in that base, of the
  ordinate \<open>share_y\<close>.
\<close>

definition share_member :: "string \<times> string \<times> string \<Rightarrow> string \<times> json" where
  "share_member s =
     (fst s, JObj [(''base'', JStr (fst (snd s))), (''value'', JStr (snd (snd s)))])"

definition share_document :: "json \<Rightarrow> json \<Rightarrow> (string \<times> string \<times> string) list \<Rightarrow> json" where
  "share_document n k shares =
     JObj ((''keys'', JObj [(''n'', n), (''k'', k)]) # map share_member shares)"

definition numeral_of :: "nat \<Rightarrow> string \<Rightarrow> bool" where
  "numeral_of b s \<longleftrightarrow> s \<noteq> [] \<and> list_all (radix_digit b) s"

definition share_x :: "string \<times> string \<times> string \<Rightarrow> nat" where
  "share_x s = positional_value 10 (fst s)"

definition share_base :: "string \<times> string \<times> string \<Rightarrow> nat" where
  "share_base s = positional_value 10 (fst (snd s))"

definition share_y :: "string \<times> string \<times> string \<Rightarrow> nat" where
  "share_y s = positional_value (share_base s) (snd (snd s))"

definition well_encoded :: "string \<times> string \<times> string \<Rightarrow> bool" where
  "well_encoded s \<longleftrightarrow>
     numeral_of 10 (fst s) \<and> numeral_of 10 (fst (snd s))
     \<and> 2 \<le> share_base s \<and> share_base s \<le> 36 \<and> numeral_of (share_base s) (snd (snd s))"

text \<open>The matrix of the exact powers of the abscissas \<open>xs\<close>, highest power first.\<close>

definition vandermonde :: "nat list \<Rightarrow> jsnum list list" where
  "vandermonde xs = map (\<lambda>x. map (\<lambda>i. Fin (of_nat (x ^ i))) (rev [0 ..< length xs])) xs"

section \<open>The base decoder\<close>

lemma bit_length_le: "n < 2 ^ k \<Longrightarrow> bit_length n \<le> k"
proof (induction k arbitrary: n)
  case 0
  then show ?case by (simp add: bit_length.simps)
next
  case (Suc k)
  have "n div 2 < 2 ^ k" using Suc.prems by simp
  then have "bit_length (n div 2) \<le> k" by (rule Suc.IH)
  then show ?case by (subst bit_length.simps) simp
qed

lemma round_nat_exact: "n < 2 ^ 53 \<Longrightarrow> round_nat n = n"
  using bit_length_le [of n 53] by (simp add: round_nat_def)

lemma to_double_exact: "\<bar>i\<bar> < 2 ^ 53 \<Longrightarrow> to_double i = Fin (of_int i)"
proof -
  assume a: "\<bar>i\<bar> < 2 ^ 53"
  then have small: "nat \<bar>i\<bar> < 2 ^ 53" by (simp add: nat_less_iff)
  then have r: "round_nat (nat \<bar>i\<bar>) = nat \<bar>i\<bar>" by (rule round_nat_exact)
  have "(2::nat) ^ 53 < 2 ^ 1024" by simp
  with small have "\<not> (2::nat) ^ 1024 \<le> nat \<bar>i\<bar>" by linarith
  then show ?thesis by (simp add: to_double_def r Let_def del: power_numeral)
qed

lemma to_double_nat: "m < 2 ^ 53 \<Longrightarrow> to_double (int m) = Fin (of_nat m)"
  using to_double_exact [of "int m"] by simp

lemma mathInt_snoc: "mathInt b (s @ [c]) = mathInt b s * b + digit_of c"
  by (simp add: mathInt_def)

lemma mathInt_positional: "mathInt b s = positional_value b s"
proof (induction s rule: rev_induct)
  case Nil
  then show ?case by (simp add: mathInt_def positional_value_def)
next
  case (snoc c s)
  have "(\<Sum>i<length s. digit_of ((s @ [c]) ! i) * b ^ (length s - i))
      = (\<Sum>i<length s. digit_of (s ! i) * b ^ (length s - Suc i) * b)"
  proof (rule sum.cong)
    fix i assume i: "i \<in> {..<length s}"
    then have "length s - i = Suc (length s - Suc i)" by auto
    with i show "digit_of ((s @ [c]) ! i) * b ^ (length s - i)
        = digit_of (s ! i) * b ^ (length s - Suc i) * b"
      by (simp add: nth_append)
  qed simp
  then show ?case
    using snoc by (simp add: mathInt_snoc positional_value_def sum_distrib_right nth_append)
qed

lemma ToInt32_int: "- (2 ^ 31) \<le> i \<Longrightarrow> i < 2 ^ 31 \<Longrightarrow> ToInt32 (Fin (of_int i)) = i"
proof -
  assume a: "- (2 ^ 31) \<le> i" "i < 2 ^ 31"
  have t: "trunc_rat (of_int i) = i" by (simp add: trunc_rat_def)
  show ?thesis
  proof (cases "0 \<le> i")
    case True
    then have "i mod 4294967296 = i" using a by simp
    then show ?thesis using a True by (simp add: ToInt32_def t Let_def)
  next
    case False
    have "(i + 4294967296) mod 4294967296 = i + 4294967296"
      using a False by (intro mod_pos_pos_trivial) simp_all
    then have "i mod 4294967296 = i + 4294967296" by simp
    then show ?thesis using a False by (simp add: ToInt32_def t Let_def)
  qed
qed

lemma ToInt32_small: "b \<le> 36 \<Longrightarrow> ToInt32 (Fin (of_nat b)) = int b"
  using ToInt32_int [of "int b"] by simp

lemma radix_digit_not_ws: "radix_digit b c \<Longrightarrow> \<not> is_ws c"
  by (auto simp: radix_digit_def digit_val_def is_ws_def Let_def split: option.splits if_splits)

lemma radix_digit_not_sign: "radix_digit b c \<Longrightarrow> c \<noteq> CHR ''+'' \<and> c \<noteq> CHR ''-''"
  by (auto simp: radix_digit_def digit_val_def Let_def split: option.splits if_splits)

lemma radix_digit_16_not_x: "radix_digit 16 c \<Longrightarrow> c \<noteq> CHR ''x'' \<and> c \<noteq> CHR ''X''"
  by (auto simp: radix_digit_def digit_val_def Let_def split: option.splits if_splits)

text \<open>
  On a text that starts with a digit of the radix, and is not a \<open>0x\<close> to strip, \<open>parseInt\<close>
  answers the double of the longest prefix of digits. On a string, it does not throw.
\<close>

lemma parse_text_prefix:
  assumes b: "2 \<le> b" "b \<le> 36"
    and c: "radix_digit b c"
    and hx: "b = 16 \<Longrightarrow> \<not> has_0x (c # cs)"
  shows "parse_text (c # cs) (Fin (of_nat b))
    = to_double (int (mathInt b (takeWhile (radix_digit b) (c # cs))))"
proof -
  have ws: "dropWhile is_ws (c # cs) = c # cs" using radix_digit_not_ws [OF c] by simp
  have sg: "c \<noteq> CHR ''+''" "c \<noteq> CHR ''-''" using radix_digit_not_sign [OF c] by simp_all
  have ng: "(case c # cs of c # _ \<Rightarrow> c = CHR ''-'' | [] \<Rightarrow> False) = False"
    using sg by simp
  have s1: "(case c # cs of c' # cs' \<Rightarrow> if c' = CHR ''+'' \<or> c' = CHR ''-'' then cs' else c # cs
      | [] \<Rightarrow> c # cs) = c # cs"
    using sg by simp
  have st: "((int b = 0 \<or> int b = 16) \<and> has_0x (c # cs)) = False"
    using b(1) hx by auto
  have r0: "int b \<noteq> 0" "\<not> (int b < 2 \<or> 36 < int b)" using b by auto
  have ne: "takeWhile (radix_digit b) (c # cs) \<noteq> []" using c by simp
  show ?thesis
    unfolding parse_text_def ws Let_def ng s1 ToInt32_small [OF b(2)] st
    using r0 ne by simp
qed

lemma parseInt_string: "parseInt (VJson (JStr s)) radix = Inr (parse_text s radix)"
  by (simp add: parseInt_def)

lemma convertToDecimal_string:
  "convertToDecimal (VJson (JStr s)) radix = Inr (parse_text s radix)"
  by (simp add: convertToDecimal_def parseInt_def)

lemma parse_text_digits:
  assumes "2 \<le> b" "b \<le> 36" "s \<noteq> []" "\<forall>c\<in>set s. radix_digit b c"
  shows "parse_text s (Fin (of_nat b)) = to_double (int (mathInt b s))"
proof -
  obtain c cs where s: "s = c # cs" using assms(3) by (cases s) auto
  have c: "radix_digit b c" using assms(4) s by simp
  have hx: "b = 16 \<Longrightarrow> \<not> has_0x (c # cs)"
    using assms(4) s radix_digit_16_not_x by (auto simp: has_0x_def split: list.splits)
  have tw: "takeWhile (radix_digit b) s = s" using assms(4) by (simp add: takeWhile_eq_all_conv)
  show ?thesis
    using parse_text_prefix [OF assms(1,2) c hx] tw s by simp
qed

lemma digit_val_to_upper: "digit_val (to_upper c) = digit_val c"
  by (auto simp: digit_val_def to_upper_def Let_def)

lemma mathInt_to_upper: "mathInt b (map to_upper s) = mathInt b s"
  by (induction s rule: rev_induct) (simp_all add: mathInt_def digit_of_def digit_val_to_upper)

lemma positional_value_to_upper: "positional_value b (map to_upper s) = positional_value b s"
  using mathInt_to_upper [of b s] by (simp add: mathInt_positional)

text \<open>
  C3, as amended. For every base \<open>b\<close> from 2 to 36 and every non-empty numeral whose
  characters are all digits of \<open>b\<close> and whose positional value is below \<open>2 ^ 53\<close>,
  \<open>convertToDecimal\<close> returns that value, and the numeral with its letters in upper case
  decodes to the same Number.
\<close>

theorem convertToDecimal_positional:
  assumes "2 \<le> b" "b \<le> 36" "s \<noteq> []" "list_all (radix_digit b) s"
    and "positional_value b s < 2 ^ 53"
  shows "convertToDecimal (VJson (JStr s)) (Fin (of_nat b)) = Inr (Fin (of_nat (positional_value b s)))
    \<and> convertToDecimal (VJson (JStr (map to_upper s))) (Fin (of_nat b))
      = convertToDecimal (VJson (JStr s)) (Fin (of_nat b))"
proof -
  have v: "\<forall>c\<in>set s. radix_digit b c" using assms(4) by (simp add: list_all_iff)
  have vu: "\<forall>c\<in>set (map to_upper s). radix_digit b c"
    using v by (simp add: radix_digit_def digit_val_to_upper)
  have 1: "convertToDecimal (VJson (JStr s)) (Fin (of_nat b)) = Inr (Fin (of_nat (positional_value b s)))"
    using parse_text_digits [OF assms(1,2,3) v] to_double_nat [OF assms(5)]
    by (simp add: convertToDecimal_string mathInt_positional)
  have "convertToDecimal (VJson (JStr (map to_upper s))) (Fin (of_nat b))
      = Inr (Fin (of_nat (positional_value b s)))"
    using parse_text_digits [OF assms(1,2) _ vu] assms(3) to_double_nat [OF assms(5)]
    by (simp add: convertToDecimal_string mathInt_positional positional_value_to_upper)
  with 1 show ?thesis by simp
qed

lemma mathInt_1E: "mathInt 16 ''1E'' = 30"
  by (simp add: mathInt_def digit_of_def digit_val_def)

theorem convertToDecimal_positional_witness:
  "convertToDecimal (VJson (JStr ''1E'')) (Fin 16) = Inr (Fin 30)
   \<and> convertToDecimal (VJson (JStr ''1e'')) (Fin 16) = Inr (Fin 30)"
proof -
  have d: "list_all (radix_digit 16) ''1e''" by (simp add: radix_digit_def digit_val_def)
  have p: "positional_value 16 ''1e'' = 30"
    by (simp add: mathInt_positional [symmetric] mathInt_def digit_of_def digit_val_def)
  have u: "map to_upper ''1e'' = ''1E''" by code_simp
  show ?thesis
    using convertToDecimal_positional [of 16 "''1e''"] d p u by simp
qed

lemma bit_length_2_53_1: "bit_length 9007199254740993 = 54"
  by (simp add: bit_length.simps)

lemma round_nat_2_53_1: "round_nat 9007199254740993 = 9007199254740992"
  by (simp add: round_nat_def bit_length_2_53_1 Let_def)

lemma mathInt_2_53_1: "mathInt 10 ''9007199254740993'' = 9007199254740993"
  by (simp add: mathInt_def digit_of_def digit_val_def)

lemma to_double_2_53_1: "to_double 9007199254740993 = Fin 9007199254740992"
  by (simp add: to_double_def round_nat_2_53_1)

lemma parse_text_empty: "parse_text [] (Fin 10) = NaN"
  by (simp add: parse_text_def ToInt32_def trunc_rat_def has_0x_def Let_def)

theorem convertToDecimal_positional_counterexample:
  "list_all (radix_digit 10) ''9007199254740993''
   \<and> positional_value 10 ''9007199254740993'' = 9007199254740993
   \<and> convertToDecimal (VJson (JStr ''9007199254740993'')) (Fin 10) = Inr (Fin 9007199254740992)
   \<and> convertToDecimal (VJson (JStr [])) (Fin 10) = Inr NaN"
proof -
  have v: "list_all (radix_digit 10) ''9007199254740993''"
    by (simp add: radix_digit_def digit_val_def)
  then have "\<forall>c\<in>set ''9007199254740993''. radix_digit 10 c"
    unfolding list_all_iff .
  then have "parse_text ''9007199254740993'' (Fin (of_nat 10))
      = to_double (int (mathInt 10 ''9007199254740993''))"
    by (intro parse_text_digits) simp_all
  then have "convertToDecimal (VJson (JStr ''9007199254740993'')) (Fin 10) = Inr (Fin 9007199254740992)"
    by (simp add: convertToDecimal_string mathInt_2_53_1 to_double_2_53_1)
  with v show ?thesis
    by (simp add: mathInt_positional [symmetric] mathInt_2_53_1 convertToDecimal_string parse_text_empty)
qed









section \<open>The display of the polynomial\<close>

lemma terms_loop_eq:
  "terms_loop str coeffs i acc
   = acc @ map (\<lambda>j. str (coeffs ! j) @ ''x^'' @ str (Fin (of_nat (length coeffs - 1 - j))))
       (filter (\<lambda>j. coeffs ! j \<noteq> Fin 0) [i ..< length coeffs - 1])"
proof (induction str coeffs i acc rule: terms_loop.induct)
  case (1 str coeffs i acc)
  let ?t = "\<lambda>j. str (coeffs ! j) @ ''x^'' @ str (Fin (of_nat (length coeffs - 1 - j)))"
  let ?f = "\<lambda>j. coeffs ! j \<noteq> Fin 0"
  show ?case
  proof (cases "i < length coeffs - 1")
    case True
    then have d: "length coeffs - 1 - i \<noteq> 0" by simp
    have u: "[i ..< length coeffs - 1] = i # [i + 1 ..< length coeffs - 1]"
      using True by (simp add: upt_conv_Cons)
    let ?acc = "if coeffs ! i \<noteq> Fin 0 then acc @ [?t i] else acc"
    have "terms_loop str coeffs i acc = terms_loop str coeffs (i + 1) ?acc"
      using True d by (subst terms_loop.simps) (simp only: Let_def if_True if_False not_False_eq_True)
    also have "\<dots> = ?acc @ map ?t (filter ?f [i + 1 ..< length coeffs - 1])"
      using "1.IH" [OF True refl refl] d by (simp only: if_True not_False_eq_True)
    also have "\<dots> = acc @ map ?t (filter ?f [i ..< length coeffs - 1])"
      unfolding u by (cases "coeffs ! i = Fin 0") simp_all
    finally show ?thesis .
  next
    case False
    then show ?thesis by (subst terms_loop.simps) simp
  qed
qed

lemma join_plus_snoc:
  "join_plus (ts @ [c]) = concat (map (\<lambda>t. t @ '' + '') ts) @ c"
proof (induction ts)
  case Nil
  show ?case by simp
next
  case (Cons t ts)
  then show ?case by (cases ts) simp_all
qed

text \<open>
  C9. For every coefficient vector of length \<open>k \<ge> 1\<close>, the terms of the expression are, in
  the order of the vector (descending degree), one term \<open>coeff x^degree\<close> for each of the
  first \<open>k - 1\<close> coefficients that is not zero, and then the constant term
  \<open>coeffs[k - 1]\<close>, whatever its value. The rendered expression is the text of these terms in
  that order, each term before the constant one followed by \<open> + \<close>, and the constant term
  last.
\<close>

theorem polynomialTerms_elides_zeros:
  assumes "coeffs \<noteq> []"
  shows "polynomialTerms str coeffs
      = map (\<lambda>i. str (coeffs ! i) @ ''x^'' @ str (Fin (of_nat (length coeffs - 1 - i))))
          (filter (\<lambda>i. coeffs ! i \<noteq> Fin 0) [0 ..< length coeffs - 1])
        @ [str (coeffs ! (length coeffs - 1))]
    \<and> polynomial str coeffs
      = concat (map (\<lambda>i. str (coeffs ! i) @ ''x^'' @ str (Fin (of_nat (length coeffs - 1 - i))) @ '' + '')
          (filter (\<lambda>i. coeffs ! i \<noteq> Fin 0) [0 ..< length coeffs - 1]))
        @ str (coeffs ! (length coeffs - 1))"
proof -
  let ?t = "\<lambda>i. str (coeffs ! i) @ ''x^'' @ str (Fin (of_nat (length coeffs - 1 - i)))"
  let ?is = "filter (\<lambda>i. coeffs ! i \<noteq> Fin 0) [0 ..< length coeffs - 1]"
  have 1: "polynomialTerms str coeffs = map ?t ?is @ [str (coeffs ! (length coeffs - 1))]"
    using assms
    by (simp add: polynomialTerms_def terms_loop_eq findConstantTerm_def template_def
        last_conv_nth)
  have "polynomial str coeffs
      = concat (map (\<lambda>t. t @ '' + '') (map ?t ?is)) @ str (coeffs ! (length coeffs - 1))"
    unfolding polynomial_def 1 by (rule join_plus_snoc)
  also have "map (\<lambda>t. t @ '' + '') (map ?t ?is) = map (\<lambda>i. ?t i @ '' + '') ?is"
    by simp
  finally show ?thesis using 1 by simp
qed

theorem polynomialTerms_elides_zeros_witness:
  "polynomialTerms
     (\<lambda>x. if x = Fin 0 then ''0'' else if x = Fin 1 then ''1'' else if x = Fin 2 then ''2'' else ''3'')
     [Fin 3, Fin 0, Fin 2, Fin 0] = [''3x^3'', ''2x^1'', ''0'']
   \<and> polynomial
     (\<lambda>x. if x = Fin 0 then ''0'' else if x = Fin 1 then ''1'' else if x = Fin 2 then ''2'' else ''3'')
     [Fin 3, Fin 0, Fin 2, Fin 0] = ''3x^3 + 2x^1 + 0''"
proof -
  have u: "[0 ..< 3] = [0, Suc 0, 2]" by (simp add: upt_conv_Cons)
  show ?thesis
    using polynomialTerms_elides_zeros
      [of "[Fin 3, Fin 0, Fin 2, Fin 0]"
        "\<lambda>x. if x = Fin 0 then ''0'' else if x = Fin 1 then ''1'' else if x = Fin 2 then ''2'' else ''3''"]
    by (simp add: u)
qed

section \<open>The selection of the shares\<close>

lemma mset_enum_order: "mset (enum_order ix ps) = mset ps"
  by (simp add: enum_order_def)

lemma insort_front: "\<forall>z\<in>set ys. x \<le> z \<Longrightarrow> insort x ys = x # ys"
  by (cases ys) auto

lemma sub_negative_nat [simp]:
  "sub_negative (Fin (of_nat x)) (Fin (of_nat y)) \<longleftrightarrow> x < y"
  by (simp add: sub_negative_def)

lemma sort_insert_nat:
  "sorted ns \<Longrightarrow>
   sort_insert (Fin (of_nat x)) (map (\<lambda>i. Fin (of_nat i)) ns) = map (\<lambda>i. Fin (of_nat i)) (insort x ns)"
proof (induction ns)
  case Nil
  then show ?case by simp
next
  case (Cons y ys)
  show ?case
  proof (cases "x < y")
    case True
    then show ?thesis by simp
  next
    case False
    show ?thesis
    proof (cases "x = y")
      case True
      with Cons.prems have "\<forall>z\<in>set ys. x \<le> z" by simp
      then have "insort x ys = x # ys" by (rule insort_front)
      with Cons True show ?thesis by simp
    next
      case False
      with \<open>\<not> x < y\<close> Cons show ?thesis by simp
    qed
  qed
qed

lemma js_sort_fold:
  "sorted acc \<Longrightarrow>
   foldl (\<lambda>a x. sort_insert x a) (map (\<lambda>i. Fin (of_nat i)) acc) (map (\<lambda>i. Fin (of_nat i)) ns)
   = map (\<lambda>i. Fin (of_nat i)) (fold insort ns acc)"
proof (induction ns arbitrary: acc)
  case Nil
  then show ?case by simp
next
  case (Cons n ns)
  have "sorted (insort n acc)" using Cons.prems by (simp add: sorted_insort)
  from Cons.IH [OF this] show ?case
    using Cons.prems by (simp add: sort_insert_nat)
qed

lemma js_sort_nat: "js_sort (map (\<lambda>i. Fin (of_nat i)) ns) = map (\<lambda>i. Fin (of_nat i)) (sort ns)"
  using js_sort_fold [of "[]" ns] by (simp add: js_sort_def sort_conv_fold)

lemma sort_mset_cong: "mset ns = mset ms \<Longrightarrow> sort ns = sort (ms :: nat list)"
  by (rule properties_for_sort) simp_all

lemma key_number_share_key [simp]: "key_number (share_key i) = Fin (of_nat i)"
  by (simp add: key_number_def share_key_def)

lemma share_key_inj [simp]: "share_key i = share_key j \<longleftrightarrow> i = j"
  by (simp add: share_key_def)

lemma share_key_not_undefined [simp]: "share_key i \<noteq> KUndefined" "KUndefined \<noteq> share_key i"
  by (simp_all add: share_key_def)

lemma sorted_keys_shares_of:
  "js_sort (map (\<lambda>p. key_number (fst p)) (own_entries (shares_of ps)))
   = map (\<lambda>i. Fin (of_nat i)) (sort (map fst ps))"
proof -
  let ?L = "own_entries (shares_of ps)"
  let ?h = "\<lambda>p. nat \<lfloor>fin_val (key_number (fst p))\<rfloor>"
  have m: "mset ?L = mset (shares_of ps)" by (simp add: own_entries_def mset_enum_order)
  then have s: "set ?L = set (shares_of ps)" by (rule mset_eq_setD)
  have h: "?h (share_key i, y) = i" for i and y :: 'a
    by (simp add: fin_val_def)
  have 1: "map (\<lambda>p. key_number (fst p)) ?L = map (\<lambda>i. Fin (of_nat i)) (map ?h ?L)"
    unfolding map_map
  proof (rule map_cong [OF refl])
    fix p assume "p \<in> set ?L"
    then have "p \<in> set (shares_of ps)" using s by simp
    then obtain i y where "p = (share_key i, y)" by (auto simp: shares_of_def)
    then show "key_number (fst p) = ((\<lambda>i. Fin (of_nat i)) \<circ> ?h) p"
      by (simp add: fin_val_def)
  qed
  have "mset (map ?h ?L) = image_mset ?h (mset (shares_of ps))" using m by simp
  also have "\<dots> = mset (map ?h (shares_of ps))" by simp
  also have "map ?h (shares_of ps) = map fst ps"
    by (simp add: shares_of_def fin_val_def)
  finally have "sort (map ?h ?L) = sort (map fst ps)" by (rule sort_mset_cong)
  then show ?thesis by (simp only: 1 js_sort_nat)
qed

lemma map_fst_sort_key: "map fst (sort_key fst ps) = sort (map fst (ps :: (nat \<times> 'v) list))"
  by (rule properties_for_sort [symmetric]) (simp_all add: sorted_sort_key)

lemma obj_set_fresh: "key \<notin> fst ` set ob \<Longrightarrow> obj_set ob key v = ob @ [(key, v)]"
  by (induction ob) auto

lemma obj_set_last: "key \<notin> fst ` set ob \<Longrightarrow> obj_set (ob @ [(key, v)]) key w = ob @ [(key, w)]"
  by (induction ob) auto

lemma map_of_shares_of:
  "distinct (map fst ps) \<Longrightarrow> (i, y) \<in> set ps \<Longrightarrow> map_of (shares_of ps) (share_key i) = Some y"
  by (induction ps) (auto simp: shares_of_def rev_image_eqI)

lemma map_of_shares_of_undefined: "map_of (shares_of ps) KUndefined = None"
  by (induction ps) (auto simp: shares_of_def)

lemma fst_set_shares_of: "fst ` set (shares_of qs) = share_key ` fst ` set qs"
  by (force simp: shares_of_def image_iff)

lemma shares_of_append: "shares_of (ps @ qs) = shares_of ps @ shares_of qs"
  by (simp add: shares_of_def)

text \<open>The object that the loop of \<open>selectShares\<close> has built after \<open>k\<close> rounds.\<close>

lemma select_fold:
  assumes d: "distinct (map fst ps)"
  shows "foldl (select_step (shares_of ps) (map (\<lambda>i. Fin (of_nat i)) (sort (map fst ps)))) [] [0 ..< k]
    = shares_of (map (\<lambda>p. (fst p, Some (snd p))) (take k (sort_key fst ps)))
      @ (if length ps < k then [(KUndefined, None)] else [])"
proof (induction k)
  case 0
  show ?case by (simp add: shares_of_def)
next
  case (Suc k)
  let ?sps = "sort_key fst ps"
  let ?S = "map (\<lambda>i. Fin (of_nat i)) (sort (map fst ps))"
  let ?sel = "\<lambda>k. shares_of (map (\<lambda>p. (fst p, Some (snd p))) (take k ?sps))"
  have S: "?S = map (\<lambda>p. Fin (of_nat (fst p))) ?sps"
    by (simp add: map_fst_sort_key [symmetric])
  have ds: "distinct (map fst ?sps)"
    using d by (simp add: map_fst_sort_key)
  have step: "foldl (select_step (shares_of ps) ?S) [] [0 ..< Suc k]
      = select_step (shares_of ps) ?S (?sel k @ (if length ps < k then [(KUndefined, None)] else [])) k"
    using Suc.IH by simp
  show ?case
  proof (cases "k < length ps")
    case True
    then have kl: "k < length ?sps" by simp
    obtain i y where iy: "?sps ! k = (i, y)" by (cases "?sps ! k")
    have "(i, y) \<in> set ?sps" using kl iy by (metis nth_mem)
    then have mem: "(i, y) \<in> set ps" by simp
    have key: "KNum (?S ! k) = share_key i"
      using kl iy by (simp add: S share_key_def)
    have val: "map_of (shares_of ps) (share_key i) = Some y"
      using d mem by (rule map_of_shares_of)
    have "i \<notin> set (take k (map fst ?sps))"
    proof
      assume "i \<in> set (take k (map fst ?sps))"
      then obtain j where j: "j < k" "map fst ?sps ! j = i"
        using kl by (auto simp: in_set_conv_nth)
      moreover have "map fst ?sps ! k = i" using kl iy by simp
      ultimately show False
        using ds kl nth_eq_iff_index_eq [of "map fst ?sps" j k] by simp
    qed
    moreover have "fst ` set (?sel k) = share_key ` set (take k (map fst ?sps))"
      by (simp add: fst_set_shares_of take_map image_image)
    ultimately have fresh: "share_key i \<notin> fst ` set (?sel k)"
      by auto
    have tk: "?sel (Suc k) = ?sel k @ [(share_key i, Some y)]"
      using kl iy by (simp add: take_Suc_conv_app_nth shares_of_def)
    have lS: "k < length ?S" using True by simp
    have "select_step (shares_of ps) ?S (?sel k) k = obj_set (?sel k) (share_key i) (Some y)"
      unfolding select_step_def Let_def using lS key val by (simp only: if_True)
    also have "\<dots> = ?sel (Suc k)"
      using obj_set_fresh [OF fresh] tk by simp
    finally show ?thesis
      using True step by simp
  next
    case False
    then have lS: "\<not> k < length ?S" by simp
    have tk: "?sel (Suc k) = ?sel k" using False by simp
    have fresh: "KUndefined \<notin> fst ` set (?sel k)"
      by (auto simp: fst_set_shares_of)
    have st: "select_step (shares_of ps) ?S ob k = obj_set ob KUndefined None" for ob
      unfolding select_step_def Let_def using lS
      by (simp only: if_False map_of_shares_of_undefined)
    show ?thesis
    proof (cases "length ps < k")
      case True
      then show ?thesis
        using step st obj_set_last [OF fresh, of None None] tk by simp
    next
      case False
      then show ?thesis
        using step st obj_set_fresh [OF fresh, of None] tk \<open>\<not> k < length ps\<close> by simp
    qed
  qed
qed

lemma selectShares_object:
  assumes "distinct (map fst ps)"
  shows "selectShares (shares_of ps) k
    = shares_of (map (\<lambda>p. (fst p, Some (snd p))) (take k (sort_key fst ps)))
      @ (if length ps < k then [(KUndefined, None)] else [])"
  using select_fold [OF assms] by (simp add: selectShares_def sorted_keys_shares_of)

lemma array_index_share_key:
  "array_index (share_key i) = (if i \<le> 4294967294 then Some i else None)"
  by (simp add: array_index_def share_key_def)

lemma sorted_filter_split:
  "sorted (map f qs) \<Longrightarrow>
   filter (\<lambda>q. f q \<le> (c::nat)) qs @ filter (\<lambda>q. \<not> f q \<le> c) qs = qs"
proof (induction qs)
  case Nil
  then show ?case by simp
next
  case (Cons q qs)
  show ?case
  proof (cases "f q \<le> c")
    case True
    with Cons show ?thesis by simp
  next
    case False
    with Cons.prems have "\<forall>r\<in>set qs. \<not> f r \<le> c" by auto
    then have "filter (\<lambda>q. f q \<le> c) qs = []" "filter (\<lambda>q. \<not> f q \<le> c) qs = qs"
      by (simp_all add: filter_empty_conv)
    with False show ?thesis by simp
  qed
qed

text \<open>
  An object whose keys are whole numbers created in ascending order, followed by keys that
  are not array indices, is enumerated in the order of its creation.
\<close>

lemma enum_order_shares_sorted:
  assumes s: "sorted (map fst qs)"
    and t: "\<forall>p\<in>set rest. array_index (fst p) = None"
  shows "enum_order array_index (shares_of qs @ rest) = shares_of qs @ rest"
proof -
  let ?c = "4294967294 :: nat"
  let ?lo = "filter (\<lambda>q. fst q \<le> ?c) qs"
  let ?hi = "filter (\<lambda>q. \<not> fst q \<le> ?c) qs"
  have f1: "filter (\<lambda>p. array_index (fst p) \<noteq> None) (shares_of qs @ rest) = shares_of ?lo"
    using t by (simp add: shares_of_def filter_map comp_def array_index_share_key filter_empty_conv)
  have f2: "filter (\<lambda>p. array_index (fst p) = None) (shares_of qs @ rest) = shares_of ?hi @ rest"
    using t by (simp add: shares_of_def filter_map comp_def array_index_share_key filter_id_conv)
  have "map (\<lambda>p. index_or_0 array_index (fst p)) (shares_of ?lo) = map fst ?lo"
    by (simp add: shares_of_def index_or_0_def array_index_share_key)
  moreover have "sorted (map fst ?lo)" using s by (simp add: sorted_map sorted_wrt_filter)
  ultimately have "sort_key (\<lambda>p. index_or_0 array_index (fst p)) (shares_of ?lo) = shares_of ?lo"
    by (intro sort_key_id_if_sorted) simp
  then have "enum_order array_index (shares_of qs @ rest) = shares_of (?lo @ ?hi) @ rest"
    unfolding enum_order_def f1 f2 by (simp add: shares_of_append)
  then show ?thesis using sorted_filter_split [OF s, of ?c] by simp
qed

lemma filter_same_key:
  "distinct (map f xs) \<Longrightarrow> p \<in> set xs \<Longrightarrow> filter (\<lambda>x. f p = f x) xs = [p]"
proof (induction xs)
  case Nil
  then show ?case by simp
next
  case (Cons x xs)
  show ?case
  proof (cases "p = x")
    case True
    have "\<forall>y\<in>set xs. f x \<noteq> f y" using Cons.prems(1) by auto
    then have "filter (\<lambda>y. f x = f y) xs = []" by (simp add: filter_empty_conv)
    with True show ?thesis by simp
  next
    case False
    then have "p \<in> set xs" using Cons.prems(2) by simp
    have "f x \<notin> f ` set xs" using Cons.prems(1) by simp
    then have "f p \<noteq> f x" using \<open>p \<in> set xs\<close> by (metis imageI)
    then show ?thesis using Cons \<open>p \<in> set xs\<close> by simp
  qed
qed

lemma sort_key_perm:
  fixes ps :: "(nat \<times> 'v) list"
  assumes "distinct (map fst ps)" "mset qs = mset ps"
  shows "sort_key fst qs = sort_key fst ps"
proof (rule properties_for_sort_key)
  show "mset (sort_key fst ps) = mset qs" using assms(2) by simp
  show "sorted (map fst (sort_key fst ps))" by (rule sorted_sort_key)
  fix p assume "p \<in> set (sort_key fst ps)"
  then have p: "p \<in> set ps" by simp
  then have q: "p \<in> set qs" using assms(2) by (metis mset_eq_setD)
  have "mset (map fst qs) = mset (map fst ps)" using assms(2) by simp
  then have dq: "distinct (map fst qs)" using assms(1) by (metis mset_eq_imp_distinct_iff)
  have "distinct (map fst (sort_key fst ps))"
    using assms(1) by (simp add: map_fst_sort_key)
  then have "filter (\<lambda>x. fst p = fst x) (sort_key fst ps) = [p]"
    using p by (intro filter_same_key) simp_all
  moreover have "filter (\<lambda>x. fst p = fst x) qs = [p]"
    using dq q by (rule filter_same_key)
  ultimately show "filter (\<lambda>x. fst p = fst x) (sort_key fst ps) = filter (\<lambda>x. fst p = fst x) qs"
    by simp
qed

text \<open>
  C7. Let the decoded shares have whole indices, the object being created in the order of
  the list \<open>ps\<close>, any order, with no index twice, and hold at least \<open>k\<close> entries. Then the
  object that \<open>selectShares\<close> returns enumerates exactly the \<open>k\<close> shares of smallest index,
  in ascending order of index, each with its decoded value; it is the same for every other
  order of creation of the same shares.
\<close>

theorem selectShares_smallest:
  assumes "distinct (map fst ps)" "k \<le> length ps"
  shows "own_entries (selectShares (shares_of ps) k)
      = shares_of (map (\<lambda>p. (fst p, Some (snd p))) (take k (sort_key fst ps)))
    \<and> (\<forall>qs. mset qs = mset ps \<longrightarrow> selectShares (shares_of qs) k = selectShares (shares_of ps) k)"
proof
  let ?sel = "map (\<lambda>p. (fst p, Some (snd p))) (take k (sort_key fst ps))"
  have "sorted (map fst (sort_key fst ps))" by (rule sorted_sort_key)
  then have "sorted (take k (map fst (sort_key fst ps)))" by (rule sorted_wrt_take)
  then have s: "sorted (map fst ?sel)" by (simp add: take_map comp_def)
  have "selectShares (shares_of ps) k = shares_of ?sel @ []"
    using selectShares_object [OF assms(1), of k] assms(2) by simp
  then show "own_entries (selectShares (shares_of ps) k) = shares_of ?sel"
    using enum_order_shares_sorted [OF s, of "[]"] by (simp add: own_entries_def)
  show "\<forall>qs. mset qs = mset ps \<longrightarrow> selectShares (shares_of qs) k = selectShares (shares_of ps) k"
  proof (intro allI impI)
    fix qs :: "(nat \<times> jsnum) list"
    assume m: "mset qs = mset ps"
    then have "mset (map fst qs) = mset (map fst ps)" by simp
    then have dq: "distinct (map fst qs)" using assms(1) by (metis mset_eq_imp_distinct_iff)
    have "length qs = length ps" using m by (metis size_mset)
    then show "selectShares (shares_of qs) k = selectShares (shares_of ps) k"
      using selectShares_object [OF dq, of k] selectShares_object [OF assms(1), of k]
        sort_key_perm [OF assms(1) m]
      by simp
  qed
qed

theorem selectShares_smallest_witness:
  "own_entries (selectShares [(KNum (Fin 7), Fin 70), (KNum (Fin 2), Fin 20), (KNum (Fin 5), Fin 50)] 2)
     = [(KNum (Fin 2), Some (Fin 20)), (KNum (Fin 5), Some (Fin 50))]
   \<and> selectShares [(KNum (Fin 2), Fin 20), (KNum (Fin 5), Fin 50), (KNum (Fin 7), Fin 70)] 2
     = selectShares [(KNum (Fin 7), Fin 70), (KNum (Fin 2), Fin 20), (KNum (Fin 5), Fin 50)] 2"
proof -
  let ?ps = "[(7, Fin 70), (2, Fin 20), (5, Fin 50)] :: (nat \<times> jsnum) list"
  let ?qs = "[(2, Fin 20), (5, Fin 50), (7, Fin 70)] :: (nat \<times> jsnum) list"
  have m: "mset ?qs = mset ?ps" by simp
  have "distinct (map fst ?ps)" "2 \<le> length ?ps" by simp_all
  then have "own_entries (selectShares (shares_of ?ps) 2)
      = shares_of (map (\<lambda>p. (fst p, Some (snd p))) (take 2 (sort_key fst ?ps)))
    \<and> (\<forall>qs. mset qs = mset ?ps \<longrightarrow> selectShares (shares_of qs) 2 = selectShares (shares_of ?ps) 2)"
    by (rule selectShares_smallest)
  then have "own_entries (selectShares (shares_of ?ps) 2)
      = shares_of (map (\<lambda>p. (fst p, Some (snd p))) (take 2 (sort_key fst ?ps)))"
    and "selectShares (shares_of ?qs) 2 = selectShares (shares_of ?ps) 2"
    using m by blast+
  then show ?thesis by (simp add: shares_of_def share_key_def)
qed

text \<open>
  C5, as amended. \<open>selectShares\<close> never fails. Given fewer than \<open>k\<close> decoded shares (whole
  indices, none twice), it returns an object that enumerates all of them, in ascending order
  of index, and after them one more property, of key \<open>undefined\<close> and value \<open>undefined\<close>.
\<close>

theorem selectShares_insufficient:
  assumes "distinct (map fst ps)" "length ps < k"
  shows "own_entries (selectShares (shares_of ps) k)
      = shares_of (map (\<lambda>p. (fst p, Some (snd p))) (sort_key fst ps)) @ [(KUndefined, None)]"
proof -
  let ?sel = "map (\<lambda>p. (fst p, Some (snd p))) (sort_key fst ps)"
  have "sorted (map fst (sort_key fst ps))" by (rule sorted_sort_key)
  then have s: "sorted (map fst ?sel)" by (simp add: comp_def)
  have "selectShares (shares_of ps) k = shares_of ?sel @ [(KUndefined, None)]"
    using selectShares_object [OF assms(1), of k] assms(2) by simp
  then show ?thesis
    using enum_order_shares_sorted [OF s, of "[(KUndefined, None)]"]
    by (simp add: own_entries_def array_index_def)
qed

theorem selectShares_insufficient_witness:
  "own_entries (selectShares [(KNum (Fin 2), Fin 20), (KNum (Fin 1), Fin 10)] 5)
     = [(KNum (Fin 1), Some (Fin 10)), (KNum (Fin 2), Some (Fin 20)), (KUndefined, None)]"
proof -
  let ?ps = "[(2, Fin 20), (1, Fin 10)] :: (nat \<times> jsnum) list"
  have "distinct (map fst ?ps)" "length ?ps < 5" by simp_all
  from selectShares_insufficient [OF this]
  show ?thesis by (simp add: shares_of_def share_key_def)
qed

lemma select_step_1:
  "select_step [(KNum (Fin 1), Fin 10)] [Fin 1] ob 0 = obj_set ob (KNum (Fin 1)) (Some (Fin 10))"
  "select_step [(KNum (Fin 1), Fin 10)] [Fin 1] ob (Suc 0) = obj_set ob KUndefined None"
  by (simp_all add: select_step_def)

theorem selectShares_insufficient_counterexample:
  "selectShares [(KNum (Fin 1), Fin 10)] 2 = [(KNum (Fin 1), Some (Fin 10)), (KUndefined, None)]"
proof -
  have u: "[0 ..< 2] = [0, Suc 0]" by (simp add: upt_conv_Cons)
  have e: "own_entries [(KNum (Fin 1), Fin 10)] = [(KNum (Fin 1), Fin 10)]"
    by (simp add: own_entries_def enum_order_def array_index_def)
  show ?thesis
    by (simp add: selectShares_def e key_number_def js_sort_def u select_step_1)
qed

section \<open>The parser of the document\<close>

lemma set_enum_order: "set (enum_order ix ps) = set ps"
  using mset_enum_order [of ix ps] by (metis mset_eq_setD)

lemma map_of_obj_set: "map_of (obj_set ob key v) = (map_of ob)(key \<mapsto> v)"
  by (induction ob) (auto simp: fun_eq_iff)

lemma map_fst_obj_set:
  "map fst (obj_set ob key v)
   = (if key \<in> set (map fst ob) then map fst ob else map fst ob @ [key])"
proof (induction ob)
  case Nil
  show ?case by simp
next
  case (Cons p ob)
  obtain key' v' where p: "p = (key', v')" by (cases p)
  show ?case using Cons p by (cases "key' = key") simp_all
qed

lemma keys_obj_set: "fst ` set (obj_set ob key v) = insert key (fst ` set ob)"
proof -
  have "set (map fst (obj_set ob key v)) = insert key (set (map fst ob))"
    unfolding map_fst_obj_set by auto
  then show ?thesis by simp
qed

lemma distinct_obj_set: "distinct (map fst ob) \<Longrightarrow> distinct (map fst (obj_set ob key v))"
proof (induction ob)
  case Nil
  then show ?case by simp
next
  case (Cons p ob)
  obtain key' v' where p: "p = (key', v')" by (cases p)
  show ?case
  proof (cases "key' = key")
    case True
    with Cons.prems p show ?thesis by simp
  next
    case False
    have "key' \<notin> fst ` set (obj_set ob key v)"
      using Cons.prems p False by (simp add: keys_obj_set)
    with Cons p False show ?thesis by simp
  qed
qed

lemma distinct_fold_obj_set:
  "distinct (map fst acc) \<Longrightarrow>
   distinct (map fst (foldl (\<lambda>sh p. obj_set sh (f p) (g p)) acc es))"
  by (induction es arbitrary: acc) (simp_all add: distinct_obj_set)

text \<open>In an object filled by assignments, a key has the value of the last assignment to it.\<close>

lemma map_of_fold_obj_set:
  "map_of (foldl (\<lambda>sh p. obj_set sh (f p) (g p)) acc es) key
   = (case find (\<lambda>p. f p = key) (rev es) of None \<Rightarrow> map_of acc key | Some p \<Rightarrow> Some (g p))"
  by (induction es rule: rev_induct) (simp_all add: map_of_obj_set)

lemma get_prop_json:
  "get_prop (VJson v) name = (if v = JNull then Inl TypeError else Inr (read_prop (VJson v) name))"
  by (simp add: get_prop_def)

lemma read_prop_member:
  "distinct (map fst ms) \<Longrightarrow> (key, v) \<in> set ms \<Longrightarrow> read_prop (VJson (JObj ms)) key = VJson v"
  by (simp add: read_prop_def)

lemma collect_TypeError:
  "\<forall>r\<in>set rs. r = Inl TypeError \<or> (\<exists>a. r = Inr a) \<Longrightarrow>
   collect rs = (if \<exists>r\<in>set rs. r = Inl TypeError then Inl TypeError else Inr (map projr rs))"
  by (induction rs) auto

text \<open>\<open>ToString\<close> throws, a TypeError, exactly on the values that have no text.\<close>

lemma json_to_string_cases:
  "json_to_string j = Inl TypeError \<and> no_text j \<or> (\<exists>s. json_to_string j = Inr s) \<and> \<not> no_text j"
proof (induction j)
  case (JArr xs)
  let ?rs = "map (\<lambda>x. if x = JNull then Inr [] else json_to_string x) xs"
  have 1: "\<forall>r\<in>set ?rs. r = Inl TypeError \<or> (\<exists>a. r = Inr a)"
    using JArr by auto
  have 2: "(\<exists>r\<in>set ?rs. r = Inl TypeError) \<longleftrightarrow> list_ex no_text xs"
  proof
    assume "\<exists>r\<in>set ?rs. r = Inl TypeError"
    then obtain x where x: "x \<in> set xs" "x \<noteq> JNull" "json_to_string x = Inl TypeError"
      by (auto split: if_splits)
    then have "no_text x" using JArr [of x] by auto
    with x show "list_ex no_text xs" by (auto simp: list_ex_iff)
  next
    assume "list_ex no_text xs"
    then obtain x where x: "x \<in> set xs" "no_text x" by (auto simp: list_ex_iff)
    then have "json_to_string x = Inl TypeError" "x \<noteq> JNull" using JArr [of x] by auto
    with x show "\<exists>r\<in>set ?rs. r = Inl TypeError" by force
  qed
  show ?case
    using collect_TypeError [OF 1] 2 by simp
qed simp_all

lemma ToString_cases:
  "(no_text_val v \<longrightarrow> ToString v = Inl TypeError)
   \<and> (\<not> no_text_val v \<longrightarrow> (\<exists>s. ToString v = Inr s))"
proof (cases v)
  case (VJson j)
  then show ?thesis using json_to_string_cases [of j] by (auto simp: no_text_val_def)
qed (simp_all add: no_text_val_def)

lemma parseInt_cases:
  "(no_text_val v \<longrightarrow> parseInt v radix = Inl TypeError)
   \<and> (\<not> no_text_val v \<longrightarrow> (\<exists>y. parseInt v radix = Inr y))"
  using ToString_cases [of v] by (auto simp: parseInt_def)

lemma entry_value_cases:
  "(no_text_val (read_prop (VJson entry) ''base'') \<or> no_text_val (read_prop (VJson entry) ''value'')
      \<longrightarrow> entry_value entry = Inl TypeError)
   \<and> (\<not> (no_text_val (read_prop (VJson entry) ''base'')
          \<or> no_text_val (read_prop (VJson entry) ''value''))
      \<longrightarrow> (\<exists>y. entry_value entry = Inr y))"
proof (cases "no_text_val (read_prop (VJson entry) ''base'')")
  case True
  then show ?thesis
    using parseInt_cases [of "read_prop (VJson entry) ''base''" "Fin 10"]
    by (simp add: entry_value_def)
next
  case False
  then obtain b where b: "parseInt (read_prop (VJson entry) ''base'') (Fin 10) = Inr b"
    using parseInt_cases [of "read_prop (VJson entry) ''base''" "Fin 10"] by auto
  show ?thesis
    using False b parseInt_cases [of "read_prop (VJson entry) ''value''" b]
    by (auto simp: entry_value_def convertToDecimal_def)
qed

lemma entry_value_error: "entry_value entry = Inl e \<Longrightarrow> e = TypeError"
  using entry_value_cases [of entry] by auto

text \<open>One round of the loop, on a member that is a share entry and not \<open>null\<close>.\<close>

lemma parse_loop_step:
  assumes "key \<noteq> ''keys''" "read_prop (VJson data) key = VJson v" "v \<noteq> JNull"
  shows "parse_loop data (key # keys) shares
    = (case entry_value v of
         Inl e \<Rightarrow> Inl e
       | Inr y \<Rightarrow> parse_loop data keys (obj_set shares (KNum (share_index key)) y))"
  using assms
  by (simp add: get_prop_json parseInt_string share_index_def entry_value_def
      split: sum.splits)

lemma parse_loop_obj:
  assumes d: "distinct (map fst ms)"
  shows "set es \<subseteq> set ms \<Longrightarrow>
    parse_loop (JObj ms) (map fst es) acc
    = (if \<exists>p\<in>set es. fst p \<noteq> ''keys'' \<and> (snd p = JNull \<or> (\<exists>e. entry_value (snd p) = Inl e))
       then Inl TypeError
       else Inr (foldl (\<lambda>sh p. obj_set sh (KNum (share_index (fst p))) (projr (entry_value (snd p))))
               acc (filter (\<lambda>p. fst p \<noteq> ''keys'') es)))"
proof (induction es arbitrary: acc)
  case Nil
  then show ?case by simp
next
  case (Cons p es)
  obtain key v where p: "p = (key, v)" by (cases p)
  have sub: "set es \<subseteq> set ms" and mem: "(key, v) \<in> set ms" using Cons.prems p by auto
  have rd: "read_prop (VJson (JObj ms)) key = VJson v" using d mem by (rule read_prop_member)
  show ?case
  proof (cases "key = ''keys''")
    case True
    then show ?thesis using Cons.IH [OF sub] p by simp
  next
    case False
    show ?thesis
    proof (cases "v = JNull")
      case True
      then show ?thesis using False p rd by (simp add: get_prop_json parseInt_string)
    next
      case nn: False
      show ?thesis
      proof (cases "entry_value v")
        case (Inl e)
        then have "e = TypeError" by (rule entry_value_error)
        with Inl show ?thesis
          using False p parse_loop_step [OF False rd nn] by simp
      next
        case (Inr y)
        then show ?thesis
          using Cons.IH [OF sub] False nn p parse_loop_step [OF False rd nn] by simp
      qed
    qed
  qed
qed

lemma parse_loop_document:
  assumes d: "distinct (map fst ms)"
  shows "parse_loop (JObj ms) (enum_keys (JObj ms)) []
    = (if \<exists>p\<in>set ms. fst p \<noteq> ''keys'' \<and> (snd p = JNull \<or> (\<exists>e. entry_value (snd p) = Inl e))
       then Inl TypeError
       else Inr (foldl (\<lambda>sh p. obj_set sh (KNum (share_index (fst p))) (projr (entry_value (snd p))))
               [] (share_entries ms)))"
  using parse_loop_obj [OF d, of "enum_order string_index ms" "[]"]
  by (simp add: enum_keys_def set_enum_order share_entries_def)

lemma parseJsonInput_obj:
  "parseJsonInput (Some (JObj ms))
   = (case map_of ms ''keys'' of
        None \<Rightarrow> Inl TypeError
      | Some ks \<Rightarrow>
          if ks = JNull then Inl TypeError
          else (case parse_loop (JObj ms) (enum_keys (JObj ms)) [] of
                  Inl e \<Rightarrow> Inl e
                | Inr shares \<Rightarrow>
                    Inr \<lparr>parsed_n = read_prop (VJson ks) ''n'', parsed_k = read_prop (VJson ks) ''k'',
                         parsed_shares = shares\<rparr>))"
  by (simp add: parseJsonInput_def get_prop_def read_prop_def split: option.splits sum.splits)

lemma string_index_keys: "string_index ''keys'' = None"
  by (simp add: string_index_def radix_digit_def digit_val_def)

lemma parseJsonInput_not_object:
  "(\<forall>ms. d \<noteq> JObj ms) \<Longrightarrow> (\<forall>xs. d \<noteq> JArr xs) \<Longrightarrow> parseJsonInput (Some d) = Inl TypeError"
  by (cases d) (simp_all add: parseJsonInput_def get_prop_def read_prop_def string_index_keys)

text \<open>
  C6, as amended. \<open>parseJsonInput\<close> fails with the SyntaxError of \<open>JSON.parse\<close> when the
  text is not JSON, and with a TypeError when the document is neither an object nor an
  array. On a document that is an object it fails exactly when the document has no member
  \<open>keys\<close>, or that member is \<open>null\<close>, or a share entry is \<open>null\<close>, or the base or the value of
  a share entry is a value that \<open>ToString\<close> throws on (an object with a member \<open>toString\<close>,
  or an array that holds one at any depth of arrays). So a descriptor that lacks \<open>n\<close> or
  \<open>k\<close> and a share entry that lacks \<open>base\<close> or \<open>value\<close> do not make it fail.
\<close>

theorem parseJsonInput_failure:
  "parseJsonInput None = Inl SyntaxError
   \<and> ((\<forall>ms. d \<noteq> JObj ms) \<and> (\<forall>xs. d \<noteq> JArr xs) \<longrightarrow> parseJsonInput (Some d) = Inl TypeError)
   \<and> (distinct (map fst ms) \<longrightarrow>
        ((\<exists>e. parseJsonInput (Some (JObj ms)) = Inl e)
         \<longleftrightarrow> map_of ms ''keys'' = None \<or> map_of ms ''keys'' = Some JNull
             \<or> (\<exists>key v. key \<noteq> ''keys'' \<and> (key, v) \<in> set ms
                  \<and> (v = JNull \<or> no_text_val (read_prop (VJson v) ''base'')
                       \<or> no_text_val (read_prop (VJson v) ''value'')))))"
proof (intro conjI impI)
  show "parseJsonInput None = Inl SyntaxError" by (simp add: parseJsonInput_def)
next
  assume "(\<forall>ms. d \<noteq> JObj ms) \<and> (\<forall>xs. d \<noteq> JArr xs)"
  then show "parseJsonInput (Some d) = Inl TypeError" by (simp add: parseJsonInput_not_object)
next
  assume d: "distinct (map fst ms)"
  let ?bad = "\<exists>key v. key \<noteq> ''keys'' \<and> (key, v) \<in> set ms
      \<and> (v = JNull \<or> no_text_val (read_prop (VJson v) ''base'')
           \<or> no_text_val (read_prop (VJson v) ''value''))"
  have bad: "(\<exists>p\<in>set ms. fst p \<noteq> ''keys'' \<and> (snd p = JNull \<or> (\<exists>e. entry_value (snd p) = Inl e)))
      \<longleftrightarrow> ?bad"
  proof
    assume "\<exists>p\<in>set ms. fst p \<noteq> ''keys'' \<and> (snd p = JNull \<or> (\<exists>e. entry_value (snd p) = Inl e))"
    then obtain key v where kv: "(key, v) \<in> set ms" "key \<noteq> ''keys''"
      "v = JNull \<or> (\<exists>e. entry_value v = Inl e)" by force
    then have "v = JNull \<or> no_text_val (read_prop (VJson v) ''base'')
        \<or> no_text_val (read_prop (VJson v) ''value'')"
      using entry_value_cases [of v] by auto
    with kv show ?bad by blast
  next
    assume ?bad
    then obtain key v where kv: "(key, v) \<in> set ms" "key \<noteq> ''keys''"
      "v = JNull \<or> no_text_val (read_prop (VJson v) ''base'')
        \<or> no_text_val (read_prop (VJson v) ''value'')" by blast
    then have "v = JNull \<or> (\<exists>e. entry_value v = Inl e)"
      using entry_value_cases [of v] by auto
    with kv show "\<exists>p\<in>set ms. fst p \<noteq> ''keys'' \<and> (snd p = JNull \<or> (\<exists>e. entry_value (snd p) = Inl e))"
      by force
  qed
  show "(\<exists>e. parseJsonInput (Some (JObj ms)) = Inl e)
      \<longleftrightarrow> map_of ms ''keys'' = None \<or> map_of ms ''keys'' = Some JNull \<or> ?bad"
  proof (cases "map_of ms ''keys''")
    case None
    then show ?thesis by (simp add: parseJsonInput_obj)
  next
    case (Some ks)
    show ?thesis
    proof (cases "ks = JNull")
      case True
      with Some show ?thesis by (simp add: parseJsonInput_obj)
    next
      case False
      with Some show ?thesis
        unfolding bad [symmetric]
        by (simp add: parseJsonInput_obj parse_loop_document [OF d])
    qed
  qed
qed


lemma no_text_val_undefined: "\<not> no_text_val VUndefined"
  by (simp add: no_text_val_def)

theorem parseJsonInput_failure_witness:
  "parseJsonInput None = Inl SyntaxError
   \<and> parseJsonInput (Some (JStr ''abc'')) = Inl TypeError
   \<and> (\<exists>e. parseJsonInput (Some (JObj [(''1'', JNull), (''keys'', JObj [])])) = Inl e)
   \<and> (\<exists>e. parseJsonInput (Some (JObj [(''keys'', JObj []),
         (''1'', JObj [(''base'', JObj [(''toString'', JNum ''0'')]), (''value'', JStr ''5'')])])) = Inl e)
   \<and> \<not> (\<exists>e. parseJsonInput (Some (JObj [(''keys'', JObj []), (''1'', JObj [])])) = Inl e)"
proof -
  let ?bad = "JObj [(''base'', JObj [(''toString'', JNum ''0'')]), (''value'', JStr ''5'')]"
  have 1: "(\<exists>e. parseJsonInput (Some (JObj [(''1'', JNull), (''keys'', JObj [])])) = Inl e)"
  proof -
    have "\<exists>key v. key \<noteq> ''keys'' \<and> (key, v) \<in> set [(''1'', JNull), (''keys'', JObj [])]
        \<and> (v = JNull \<or> no_text_val (read_prop (VJson v) ''base'')
             \<or> no_text_val (read_prop (VJson v) ''value''))"
      by (intro exI [of _ "''1''"] exI [of _ JNull]) simp
    then show ?thesis
      using parseJsonInput_failure [of "JStr ''abc''" "[(''1'', JNull), (''keys'', JObj [])]"]
      by simp
  qed
  have 2: "\<not> (\<exists>e. parseJsonInput (Some (JObj [(''keys'', JObj []), (''1'', JObj [])])) = Inl e)"
  proof -
    have "read_prop (VJson (JObj [])) ''base'' = VUndefined"
      "read_prop (VJson (JObj [])) ''value'' = VUndefined"
      by (simp_all add: read_prop_def)
    then have "\<not> (\<exists>key v. key \<noteq> ''keys'' \<and> (key, v) \<in> set [(''keys'', JObj []), (''1'', JObj [])]
        \<and> (v = JNull \<or> no_text_val (read_prop (VJson v) ''base'')
             \<or> no_text_val (read_prop (VJson v) ''value'')))"
      by (auto simp: no_text_val_undefined)
    then show ?thesis
      using parseJsonInput_failure [of "JStr ''abc''" "[(''keys'', JObj []), (''1'', JObj [])]"]
      by simp
  qed
  have 3: "(\<exists>e. parseJsonInput (Some (JObj [(''keys'', JObj []), (''1'', ?bad)])) = Inl e)"
  proof -
    have "no_text_val (read_prop (VJson ?bad) ''base'')"
      by (simp add: read_prop_def no_text_val_def)
    then have "\<exists>key v. key \<noteq> ''keys'' \<and> (key, v) \<in> set [(''keys'', JObj []), (''1'', ?bad)]
        \<and> (v = JNull \<or> no_text_val (read_prop (VJson v) ''base'')
             \<or> no_text_val (read_prop (VJson v) ''value''))"
      by (intro exI [of _ "''1''"] exI [of _ ?bad]) simp
    then show ?thesis
      using parseJsonInput_failure [of "JStr ''abc''" "[(''keys'', JObj []), (''1'', ?bad)]"]
      by simp
  qed
  show ?thesis
    using parseJsonInput_failure [of "JStr ''abc''" "[]"] 1 2 3 by simp
qed

lemma parse_text_undefined_10: "parse_text ''undefined'' (Fin 10) = NaN"
  by (simp add: parse_text_def ToInt32_def trunc_rat_def is_ws_def has_0x_def radix_digit_def
      digit_val_def Let_def)

lemma parse_text_undefined_NaN: "parse_text ''undefined'' NaN = NaN"
  by (simp add: parse_text_def ToInt32_def is_ws_def has_0x_def radix_digit_def digit_val_def
      Let_def)

lemma parse_text_1: "parse_text ''1'' (Fin 10) = Fin 1"
  by (simp add: parse_text_def ToInt32_def trunc_rat_def is_ws_def has_0x_def radix_digit_def
      digit_val_def mathInt_def digit_of_def to_double_def round_nat_def bit_length.simps Let_def)

lemma string_index_1: "string_index ''1'' = Some 1"
  by (simp add: string_index_def radix_digit_def digit_val_def mathInt_def digit_of_def)

theorem parseJsonInput_failure_counterexample:
  "parseJsonInput (Some (JObj [(''keys'', JObj []), (''1'', JObj [])]))
   = Inr \<lparr>parsed_n = VUndefined, parsed_k = VUndefined, parsed_shares = [(KNum (Fin 1), NaN)]\<rparr>"
proof -
  have e: "enum_keys (JObj [(''keys'', JObj []), (''1'', JObj [])]) = [''1'', ''keys'']"
    by (simp add: enum_keys_def enum_order_def string_index_keys string_index_1)
  show ?thesis
    by (simp add: parseJsonInput_def get_prop_def read_prop_def e convertToDecimal_def
        parseInt_def parse_text_undefined_10 parse_text_undefined_NaN parse_text_1)
qed

lemma find_append_None: "find P xs = None \<Longrightarrow> find P (xs @ ys) = find P ys"
  by (induction xs) (auto split: if_splits)

lemma find_rev_last:
  assumes "j < length es" "P (es ! j)" "\<forall>l. j < l \<and> l < length es \<longrightarrow> \<not> P (es ! l)"
  shows "find P (rev es) = Some (es ! j)"
proof -
  have es: "es = take j es @ es ! j # drop (Suc j) es"
    using assms(1) by (rule id_take_nth_drop)
  have "\<forall>x\<in>set (drop (Suc j) es). \<not> P x"
  proof
    fix x assume "x \<in> set (drop (Suc j) es)"
    then obtain m where "m < length es - Suc j" "x = es ! (Suc j + m)"
      by (auto simp: in_set_conv_nth)
    then show "\<not> P x" using assms(3) by simp
  qed
  then have n: "find P (rev (drop (Suc j) es)) = None" by (simp add: find_None_iff)
  have "rev es = rev (drop (Suc j) es) @ es ! j # rev (take j es)"
    by (subst es) simp
  then show ?thesis using find_append_None [OF n] assms(2) by simp
qed

text \<open>
  C10. Let the document be an object on which the parser does not fail: it has a member
  \<open>keys\<close> that is not \<open>null\<close>, no share entry is \<open>null\<close>, and the base and the value of every
  share entry have a text. Then \<open>parseJsonInput\<close> returns, with no error, shares that hold
  each index once; the value under an index is the decoded value of the last of the
  enumerated keys that parse to it, so of two keys that parse to the same index the one
  enumerated later gives the value, and the keys that parse to another index have no part in
  it.
\<close>

theorem parseJsonInput_last_wins:
  assumes "distinct (map fst ms)" "map_of ms ''keys'' = Some ks" "ks \<noteq> JNull"
    and "\<forall>p\<in>set ms. fst p \<noteq> ''keys'' \<longrightarrow>
      snd p \<noteq> JNull \<and> \<not> no_text_val (read_prop (VJson (snd p)) ''base'')
        \<and> \<not> no_text_val (read_prop (VJson (snd p)) ''value'')"
  shows "\<exists>r. parseJsonInput (Some (JObj ms)) = Inr r
    \<and> distinct (map fst (parsed_shares r))
    \<and> (\<forall>x. map_option Inr (map_of (parsed_shares r) x)
          = map_option (\<lambda>p. entry_value (snd p))
              (find (\<lambda>p. KNum (share_index (fst p)) = x) (rev (share_entries ms))))
    \<and> (\<forall>j. j < length (share_entries ms)
          \<and> (\<forall>l. j < l \<and> l < length (share_entries ms)
                \<longrightarrow> share_index (fst (share_entries ms ! l)) \<noteq> share_index (fst (share_entries ms ! j)))
          \<longrightarrow> (\<exists>y. map_of (parsed_shares r) (KNum (share_index (fst (share_entries ms ! j)))) = Some y
                \<and> entry_value (snd (share_entries ms ! j)) = Inr y))"
proof -
  let ?sh = "foldl (\<lambda>sh p. obj_set sh (KNum (share_index (fst p))) (projr (entry_value (snd p)))) []
    (share_entries ms)"
  let ?r = "\<lparr>parsed_n = read_prop (VJson ks) ''n'', parsed_k = read_prop (VJson ks) ''k'',
    parsed_shares = ?sh\<rparr>"
  have ok: "\<exists>y. entry_value (snd p) = Inr y" if "p \<in> set ms" "fst p \<noteq> ''keys''" for p
    using that assms(4) entry_value_cases [of "snd p"] by blast
  have se: "set (share_entries ms) \<subseteq> {p \<in> set ms. fst p \<noteq> ''keys''}"
    by (auto simp: share_entries_def set_enum_order)
  have inr: "Inr (projr (entry_value (snd p))) = entry_value (snd p)"
    if "p \<in> set (share_entries ms)" for p
  proof -
    have "p \<in> set ms" "fst p \<noteq> ''keys''" using that se by auto
    then obtain y where "entry_value (snd p) = Inr y" using ok by blast
    then show ?thesis by simp
  qed
  have "\<not> (\<exists>p\<in>set ms. fst p \<noteq> ''keys'' \<and> (snd p = JNull \<or> (\<exists>e. entry_value (snd p) = Inl e)))"
  proof
    assume "\<exists>p\<in>set ms. fst p \<noteq> ''keys'' \<and> (snd p = JNull \<or> (\<exists>e. entry_value (snd p) = Inl e))"
    then obtain p where p: "p \<in> set ms" "fst p \<noteq> ''keys''"
      "snd p = JNull \<or> (\<exists>e. entry_value (snd p) = Inl e)" by blast
    from ok [OF p(1,2)] obtain y where "entry_value (snd p) = Inr y" by blast
    moreover have "snd p \<noteq> JNull" using assms(4) p(1,2) by blast
    ultimately show False using p(3) by simp
  qed
  then have r: "parseJsonInput (Some (JObj ms)) = Inr ?r"
    using assms(2,3) by (simp add: parseJsonInput_obj parse_loop_document [OF assms(1)])
  have d: "distinct (map fst ?sh)" by (rule distinct_fold_obj_set) simp
  have m: "map_option Inr (map_of ?sh x)
      = map_option (\<lambda>p. entry_value (snd p))
          (find (\<lambda>p. KNum (share_index (fst p)) = x) (rev (share_entries ms)))" for x
  proof (cases "find (\<lambda>p. KNum (share_index (fst p)) = x) (rev (share_entries ms))")
    case None
    then show ?thesis by (simp add: map_of_fold_obj_set)
  next
    case (Some p)
    then have "p \<in> set (rev (share_entries ms))" by (metis find_Some_iff nth_mem)
    then have "p \<in> set (share_entries ms)" by simp
    then show ?thesis using Some inr [of p] by (simp add: map_of_fold_obj_set)
  qed
  have l: "\<exists>y. map_of ?sh (KNum (share_index (fst (share_entries ms ! j)))) = Some y
      \<and> entry_value (snd (share_entries ms ! j)) = Inr y"
    if "j < length (share_entries ms)"
      and "\<forall>l. j < l \<and> l < length (share_entries ms)
        \<longrightarrow> share_index (fst (share_entries ms ! l)) \<noteq> share_index (fst (share_entries ms ! j))"
    for j
  proof -
    have "find (\<lambda>p. KNum (share_index (fst p)) = KNum (share_index (fst (share_entries ms ! j))))
        (rev (share_entries ms)) = Some (share_entries ms ! j)"
      using that by (intro find_rev_last) simp_all
    then have "map_option Inr (map_of ?sh (KNum (share_index (fst (share_entries ms ! j)))))
        = Some (entry_value (snd (share_entries ms ! j)))"
      by (simp add: m)
    then show ?thesis by (cases "map_of ?sh (KNum (share_index (fst (share_entries ms ! j))))") auto
  qed
  show ?thesis
  proof (intro exI [of _ ?r] conjI allI impI)
    show "parseJsonInput (Some (JObj ms)) = Inr ?r" by (rule r)
    show "distinct (map fst (parsed_shares ?r))" using d by simp
    show "map_option Inr (map_of (parsed_shares ?r) x)
        = map_option (\<lambda>p. entry_value (snd p))
            (find (\<lambda>p. KNum (share_index (fst p)) = x) (rev (share_entries ms)))" for x
      using m [of x] by simp
    show "\<exists>y. map_of (parsed_shares ?r) (KNum (share_index (fst (share_entries ms ! j)))) = Some y
        \<and> entry_value (snd (share_entries ms ! j)) = Inr y"
      if "j < length (share_entries ms)
          \<and> (\<forall>l. j < l \<and> l < length (share_entries ms)
                \<longrightarrow> share_index (fst (share_entries ms ! l)) \<noteq> share_index (fst (share_entries ms ! j)))"
      for j
      using l [of j] that by simp
  qed
qed

lemma parse_text_01: "parse_text ''01'' (Fin 10) = Fin 1"
  by (simp add: parse_text_def ToInt32_def trunc_rat_def is_ws_def has_0x_def radix_digit_def
      digit_val_def mathInt_def digit_of_def to_double_def round_nat_def bit_length.simps Let_def)

lemma parse_text_10: "parse_text ''10'' (Fin 10) = Fin 10"
  by (simp add: parse_text_def ToInt32_def trunc_rat_def is_ws_def has_0x_def radix_digit_def
      digit_val_def mathInt_def digit_of_def to_double_def round_nat_def bit_length.simps Let_def)

lemma parse_text_5: "parse_text ''5'' (Fin 10) = Fin 5"
  by (simp add: parse_text_def ToInt32_def trunc_rat_def is_ws_def has_0x_def radix_digit_def
      digit_val_def mathInt_def digit_of_def to_double_def round_nat_def bit_length.simps Let_def)

lemma string_index_01: "string_index ''01'' = None"
  by (simp add: string_index_def)

theorem parseJsonInput_last_wins_witness:
  "\<exists>r. parseJsonInput (Some (JObj
       [(''keys'', JObj [(''n'', JNum ''2''), (''k'', JNum ''1'')]),
        (''01'', JObj [(''base'', JStr ''10''), (''value'', JStr ''5'')]),
        (''1'', JObj [(''base'', JStr ''2''), (''value'', JStr ''111'')])])) = Inr r
     \<and> map_of (parsed_shares r) (KNum (Fin 1)) = Some (Fin 5)"
proof -
  let ?ms = "[(''keys'', JObj [(''n'', JNum ''2''), (''k'', JNum ''1'')]),
        (''01'', JObj [(''base'', JStr ''10''), (''value'', JStr ''5'')]),
        (''1'', JObj [(''base'', JStr ''2''), (''value'', JStr ''111'')])]"
  have e: "share_entries ?ms
      = [(''1'', JObj [(''base'', JStr ''2''), (''value'', JStr ''111'')]),
         (''01'', JObj [(''base'', JStr ''10''), (''value'', JStr ''5'')])]"
    by (simp add: share_entries_def enum_order_def string_index_keys string_index_1 string_index_01)
  have v: "entry_value (JObj [(''base'', JStr ''10''), (''value'', JStr ''5'')]) = Inr (Fin 5)"
    by (simp add: entry_value_def read_prop_def convertToDecimal_def parseInt_def
        parse_text_10 parse_text_5)
  have h: "distinct (map fst ?ms)" "map_of ?ms ''keys'' = Some (JObj [(''n'', JNum ''2''), (''k'', JNum ''1'')])"
    "JObj [(''n'', JNum ''2''), (''k'', JNum ''1'')] \<noteq> JNull"
    "\<forall>p\<in>set ?ms. fst p \<noteq> ''keys'' \<longrightarrow>
      snd p \<noteq> JNull \<and> \<not> no_text_val (read_prop (VJson (snd p)) ''base'')
        \<and> \<not> no_text_val (read_prop (VJson (snd p)) ''value'')"
    by (simp_all add: read_prop_def no_text_val_def)
  from parseJsonInput_last_wins [OF h]
  obtain r where r: "parseJsonInput (Some (JObj ?ms)) = Inr r"
    and m: "\<forall>x. map_option Inr (map_of (parsed_shares r) x)
          = map_option (\<lambda>p. entry_value (snd p))
              (find (\<lambda>p. KNum (share_index (fst p)) = x) (rev (share_entries ?ms)))"
    by blast
  have "map_option Inr (map_of (parsed_shares r) (KNum (Fin 1))) = Some (Inr (Fin 5))"
    using m [rule_format, of "KNum (Fin 1)"]
    by (simp add: e share_index_def parse_text_01 v)
  then have "map_of (parsed_shares r) (KNum (Fin 1)) = Some (Fin 5)"
    by (cases "map_of (parsed_shares r) (KNum (Fin 1))") auto
  with r show ?thesis by blast
qed

section \<open>The reconstruction on the line\<close>

lemma js_pow_small:
  "\<bar>i ^ e\<bar> < 2 ^ 53 \<Longrightarrow> js_pow (Fin (of_int i)) e = Fin (of_int (i ^ e))"
  by (cases "e = 0") (simp_all add: js_pow_def to_double_exact)

lemma selectShares_line:
  "selectShares [(KNum (Fin 1), Fin 10), (KNum (Fin 2), Fin 20), (KNum (Fin 3), Fin 30)] k
   = shares_of (map (\<lambda>p. (fst p, Some (snd p))) (take k [(1, Fin 10), (2, Fin 20), (3, Fin 30)]))
     @ (if 3 < k then [(KUndefined, None)] else [])"
  using selectShares_object [of "[(1, Fin 10), (2, Fin 20), (3, Fin 30)]" k]
  by (simp add: shares_of_def share_key_def)

lemma own_entries_line_3:
  "own_entries [(KNum (Fin 1), Some (Fin 10)), (KNum (Fin 2), Some (Fin 20)), (KNum (Fin 3), Some (Fin 30))]
   = [(KNum (Fin 1), Some (Fin 10)), (KNum (Fin 2), Some (Fin 20)), (KNum (Fin 3), Some (Fin 30))]"
  using enum_order_shares_sorted [of "[(1, Some (Fin 10)), (2, Some (Fin 20)), (3, Some (Fin 30))]" "[]"]
  by (simp add: own_entries_def shares_of_def share_key_def)

lemma vandermonde_line_3:
  "map (\<lambda>x. map (js_pow x) (rev [0 ..< 3])) [Fin 1, Fin 2, Fin 3]
   = [[Fin 1, Fin 1, Fin 1], [Fin 4, Fin 2, Fin 1], [Fin 9, Fin 3, Fin 1]]"
proof -
  have u: "rev [0 ..< 3] = [2, Suc 0, 0]" by (simp add: upt_conv_Cons)
  have p: "js_pow (Fin 1) 2 = Fin 1" "js_pow (Fin 1) (Suc 0) = Fin 1" "js_pow (Fin 1) 0 = Fin 1"
    "js_pow (Fin 2) 2 = Fin 4" "js_pow (Fin 2) (Suc 0) = Fin 2" "js_pow (Fin 2) 0 = Fin 1"
    "js_pow (Fin 3) 2 = Fin 9" "js_pow (Fin 3) (Suc 0) = Fin 3" "js_pow (Fin 3) 0 = Fin 1"
    using js_pow_small [of 1 2] js_pow_small [of 1 "Suc 0"] js_pow_small [of 1 0]
      js_pow_small [of 2 2] js_pow_small [of 2 "Suc 0"] js_pow_small [of 2 0]
      js_pow_small [of 3 2] js_pow_small [of 3 "Suc 0"] js_pow_small [of 3 0]
    by simp_all
  show ?thesis by (simp add: u p)
qed

lemma lusolve_line_3:
  "lusolve_exact [[Fin 1, Fin 1, Fin 1], [Fin 4, Fin 2, Fin 1], [Fin 9, Fin 3, Fin 1]]
     [Fin 10, Fin 20, Fin 30] = Inr [Fin 0, Fin 10, Fin 0]"
  by code_simp

lemma reconstruct_line_3:
  "reconstructPolynomial lusolve_exact
     (selectShares [(KNum (Fin 1), Fin 10), (KNum (Fin 2), Fin 20), (KNum (Fin 3), Fin 30)] 3)
   = Inr [Fin 0, Fin 10, Fin 0]"
proof -
  let ?sel = "[(KNum (Fin 1), Some (Fin 10)), (KNum (Fin 2), Some (Fin 20)), (KNum (Fin 3), Some (Fin 30))]"
  have sel: "selectShares [(KNum (Fin 1), Fin 10), (KNum (Fin 2), Fin 20), (KNum (Fin 3), Fin 30)] 3 = ?sel"
    by (simp add: selectShares_line shares_of_def share_key_def)
  have xs: "map (\<lambda>p. key_number (fst p)) ?sel = [Fin 1, Fin 2, Fin 3]"
    by (simp add: key_number_def)
  have ys: "map (\<lambda>p. case snd p of None \<Rightarrow> NaN | Some y \<Rightarrow> y) ?sel = [Fin 10, Fin 20, Fin 30]"
    by simp
  have len: "length [Fin 1, Fin 2, Fin 3] = 3" by simp
  show ?thesis
    unfolding reconstructPolynomial_def Let_def sel own_entries_line_3 xs ys len
      vandermonde_line_3 lusolve_line_3 ..
qed

text \<open>
  C8, as amended. With threshold \<open>k = 3\<close> and the decoded shares \<open>{1: 10, 2: 20, 3: 30}\<close>,
  selection and reconstruction yield a vector of three coefficients, \<open>[0, 10, 0]\<close> when the
  linear system is solved exactly, and the constant term extracted from it is \<open>0\<close>.
\<close>

theorem reconstruct_line:
  "reconstructPolynomial lusolve_exact
     (selectShares [(KNum (Fin 1), Fin 10), (KNum (Fin 2), Fin 20), (KNum (Fin 3), Fin 30)] 3)
   = Inr [Fin 0, Fin 10, Fin 0]
   \<and> findConstantTerm [Fin 0, Fin 10, Fin 0] = Some (Fin 0)"
  by (simp add: reconstruct_line_3 findConstantTerm_def)

theorem reconstruct_line_counterexample:
  "reconstructPolynomial lusolve_exact
     (selectShares [(KNum (Fin 1), Fin 10), (KNum (Fin 2), Fin 20), (KNum (Fin 3), Fin 30)] 3)
   \<noteq> Inr [Fin 10, Fin 0]"
  by (simp add: reconstruct_line_3)

section \<open>The exact solver\<close>

lemma dot_Nil [simp]: "dot [] xs = 0" "dot as [] = 0"
  by (simp_all add: dot_def)

lemma dot_Cons [simp]: "dot (a # as) (x # xs) = a * x + dot as xs"
  by (simp add: dot_def)

lemma dot_append:
  "length as = length xs \<Longrightarrow> dot (as @ bs) (xs @ ys) = dot as xs + dot bs ys"
  by (simp add: dot_def)

lemma dot_snoc:
  assumes "length as = Suc (length xs)"
  shows "dot as (xs @ [z]) = dot (butlast as) xs + last as * z"
proof -
  have "as \<noteq> []" using assms by auto
  then have as: "as = butlast as @ [last as]" by simp
  have "length (butlast as) = length xs" using assms by simp
  then have "dot (butlast as @ [last as]) (xs @ [z]) = dot (butlast as) xs + dot [last as] [z]"
    by (rule dot_append)
  then show ?thesis using as by simp
qed

lemma dot_zero: "dot as (replicate n 0) = 0"
proof (induction as arbitrary: n)
  case Nil
  show ?case by simp
next
  case (Cons a as)
  then show ?case by (cases n) simp_all
qed

lemma dot_lead: "r \<noteq> [] \<Longrightarrow> dot r (x # e) = lead r * x + dot (tl r) e"
  by (cases r) (simp_all add: lead_def)

lemma dot_map2_sub:
  "length as = length bs \<Longrightarrow> length bs = length e \<Longrightarrow>
   dot (map2 (\<lambda>a b. b - c * a) as bs) e = dot bs e - c * dot as e"
  by (induction as bs e rule: list_induct3) (simp_all add: algebra_simps)

lemma dot_eliminate:
  "length (tl p) = length e \<Longrightarrow> length (tl r) = length e \<Longrightarrow>
   dot (eliminate p r) e = dot (tl r) e - lead r / lead p * dot (tl p) e"
  unfolding eliminate_def by (rule dot_map2_sub) simp_all

lemma length_eliminate:
  "length p = Suc n \<Longrightarrow> length r = Suc n \<Longrightarrow> length (eliminate p r) = n"
  by (simp add: eliminate_def)

text \<open>
  One step of the elimination. If the vector \<open>e\<close> satisfies the reduced rows, and \<open>x\<close> is
  chosen for the pivot row, then \<open>x # e\<close> satisfies every row.
\<close>

lemma eliminate_lift:
  assumes lens: "\<forall>r\<in>set rows. length r = Suc (length e)"
    and p: "p \<in> set rows" "lead p \<noteq> 0"
    and red: "\<forall>r\<in>set (remove1 p rows). dot (eliminate p r) e = 0"
    and x: "lead p * x + dot (tl p) e = 0"
  shows "\<forall>r\<in>set rows. dot r (x # e) = 0"
proof
  fix r assume r: "r \<in> set rows"
  have lp: "length (tl p) = length e" "p \<noteq> []" using lens p(1) by auto
  have lr: "length (tl r) = length e" "r \<noteq> []" using lens r by auto
  show "dot r (x # e) = 0"
  proof (cases "r = p")
    case True
    then show ?thesis using x lp by (simp add: dot_lead)
  next
    case False
    then have "r \<in> set (remove1 p rows)" using r by simp
    then have "dot (eliminate p r) e = 0" using red by blast
    then have "dot (tl r) e = lead r / lead p * dot (tl p) e"
      using dot_eliminate [OF lp(1) lr(1)] by simp
    also have "dot (tl p) e = - (lead p * x)" using x by simp
    finally have "dot (tl r) e = - (lead r * x)" using p(2) by simp
    then show ?thesis using lr by (simp add: dot_lead)
  qed
qed

lemma remove1_rows:
  assumes "p \<in> set rows" "length rows = Suc m" "\<forall>r\<in>set rows. length r = Suc (Suc m)"
  shows "length (map (eliminate p) (remove1 p rows)) = m"
    and "\<forall>r\<in>set (map (eliminate p) (remove1 p rows)). length r = Suc m"
proof -
  show "length (map (eliminate p) (remove1 p rows)) = m"
    using assms(1,2) by (simp add: length_remove1)
  show "\<forall>r\<in>set (map (eliminate p) (remove1 p rows)). length r = Suc m"
  proof
    fix r' assume "r' \<in> set (map (eliminate p) (remove1 p rows))"
    then obtain r where r: "r \<in> set (remove1 p rows)" "r' = eliminate p r" by auto
    then have "r \<in> set rows" by (metis notin_set_remove1)
    then show "length r' = Suc m" using r(2) assms(1,3) by (simp add: length_eliminate)
  qed
qed

text \<open>What the elimination returns solves the system: the row \<open>r\<close> stands for the equation
  \<open>dot (butlast r) sol = last r\<close>, that is \<open>dot r (sol @ [- 1]) = 0\<close>.\<close>

lemma gauss_sound:
  "gauss n rows = Some sol \<Longrightarrow> length rows = n \<Longrightarrow> \<forall>r\<in>set rows. length r = Suc n \<Longrightarrow>
   length sol = n \<and> (\<forall>r\<in>set rows. dot r (sol @ [- 1]) = 0)"
proof (induction n arbitrary: rows sol)
  case 0
  then show ?case by simp
next
  case (Suc m)
  from Suc.prems(1) obtain p sol' where
    f: "find (\<lambda>r. lead r \<noteq> 0) rows = Some p"
    and g: "gauss m (map (eliminate p) (remove1 p rows)) = Some sol'"
    and s: "sol = back_subst p sol' # sol'"
    by (auto split: option.splits)
  from f have p: "p \<in> set rows" "lead p \<noteq> 0"
    by (auto simp: find_Some_iff)
  note rr = remove1_rows [OF p(1) Suc.prems(2,3)]
  from Suc.IH [OF g rr] have l: "length sol' = m"
    and ih: "\<forall>r\<in>set (map (eliminate p) (remove1 p rows)). dot r (sol' @ [- 1]) = 0"
    by simp_all
  let ?e = "sol' @ [- 1]"
  have lens: "\<forall>r\<in>set rows. length r = Suc (length ?e)" using Suc.prems(3) l by simp
  have red: "\<forall>r\<in>set (remove1 p rows). dot (eliminate p r) ?e = 0" using ih by simp
  have lp1: "length (tl p) = Suc (length sol')" using Suc.prems(3) p(1) l by simp
  then have "length (tl p) \<noteq> 0" by (simp only:)
  then have lp2: "tl p \<noteq> []" by (metis list.size(3))
  note lp = lp1 lp2
  have "dot (tl p) ?e = dot (butlast (tl p)) sol' - last (tl p)"
    using dot_snoc [OF lp(1), of "- 1"] by simp
  moreover have "last (tl p) = last p" using lp(2) by (simp add: last_tl)
  ultimately have x: "lead p * back_subst p sol' + dot (tl p) ?e = 0"
    using p(2) by (simp add: back_subst_def dot_def)
  have "\<forall>r\<in>set rows. dot r (back_subst p sol' # ?e) = 0"
    using lens p red x by (rule eliminate_lift)
  then show ?case using s l by simp
qed

text \<open>The elimination succeeds when only the zero vector solves the homogeneous system.\<close>

lemma gauss_complete:
  "\<forall>r\<in>set rows. length r = Suc n \<Longrightarrow> length rows = n \<Longrightarrow>
   \<forall>c. length c = n \<longrightarrow> (\<forall>r\<in>set rows. dot r (c @ [0]) = 0) \<longrightarrow> (\<forall>x\<in>set c. x = 0) \<Longrightarrow>
   \<exists>sol. gauss n rows = Some sol"
proof (induction n arbitrary: rows)
  case 0
  show ?case by simp
next
  case (Suc m)
  show ?case
  proof (cases "find (\<lambda>r. lead r \<noteq> 0) rows")
    case None
    then have z: "\<forall>r\<in>set rows. lead r = 0" by (auto simp: find_None_iff)
    let ?c = "1 # replicate m (0::rat)"
    have "\<forall>r\<in>set rows. dot r (?c @ [0]) = 0"
    proof
      fix r assume r: "r \<in> set rows"
      then have "r \<noteq> []" using Suc.prems(1) by auto
      then have "dot r (1 # replicate (Suc m) 0) = lead r * 1 + dot (tl r) (replicate (Suc m) 0)"
        by (rule dot_lead)
      then have "dot r (1 # replicate (Suc m) 0) = 0"
        using z r by (simp only: dot_zero)
      moreover have "?c @ [0] = 1 # replicate (Suc m) 0"
        by (simp add: replicate_append_same)
      ultimately show "dot r (?c @ [0]) = 0" by (simp only:)
    qed
    then have "\<forall>x\<in>set ?c. x = 0" using Suc.prems(3) by (metis length_Cons length_replicate)
    then show ?thesis by simp
  next
    case (Some p)
    then have p: "p \<in> set rows" "lead p \<noteq> 0" by (auto simp: find_Some_iff)
    note rr = remove1_rows [OF p(1) Suc.prems(2,1)]
    have "\<forall>c. length c = m
        \<longrightarrow> (\<forall>r\<in>set (map (eliminate p) (remove1 p rows)). dot r (c @ [0]) = 0)
        \<longrightarrow> (\<forall>x\<in>set c. x = 0)"
    proof (intro allI impI)
      fix c assume c: "length c = m"
        and k: "\<forall>r\<in>set (map (eliminate p) (remove1 p rows)). dot r (c @ [0]) = 0"
      let ?e = "c @ [0]"
      let ?x = "- (dot (tl p) ?e / lead p)"
      have lens: "\<forall>r\<in>set rows. length r = Suc (length ?e)" using Suc.prems(1) c by simp
      have red: "\<forall>r\<in>set (remove1 p rows). dot (eliminate p r) ?e = 0" using k by simp
      have x: "lead p * ?x + dot (tl p) ?e = 0" using p(2) by simp
      have "\<forall>r\<in>set rows. dot r (?x # ?e) = 0"
        using lens p red x by (rule eliminate_lift)
      then have "\<forall>r\<in>set rows. dot r ((?x # c) @ [0]) = 0" by simp
      moreover have "length (?x # c) = Suc m" using c by simp
      ultimately have "\<forall>y\<in>set (?x # c). y = 0" using Suc.prems(3) by blast
      then show "\<forall>x\<in>set c. x = 0" by simp
    qed
    from Suc.IH [OF rr(2) rr(1) this] obtain sol' where
      "gauss m (map (eliminate p) (remove1 p rows)) = Some sol'" by blast
    then show ?thesis using Some by simp
  qed
qed

section \<open>The interpolation\<close>

lemma dot_sum_nth:
  "length as = length xs \<Longrightarrow> dot as xs = (\<Sum>i<length xs. as ! i * xs ! i)"
proof (induction as xs rule: list_induct2)
  case Nil
  show ?case by simp
next
  case (Cons a as x xs)
  then show ?case by (simp add: sum.lessThan_Suc_shift del: sum.lessThan_Suc)
qed

lemma dot_powers:
  "dot (map (\<lambda>i. x ^ i) (rev [0 ..< length c])) c = poly_eval c x"
proof -
  have "dot (map (\<lambda>i. x ^ i) (rev [0 ..< length c])) c
      = (\<Sum>i<length c. map (\<lambda>i. x ^ i) (rev [0 ..< length c]) ! i * c ! i)"
    by (rule dot_sum_nth) simp
  also have "\<dots> = (\<Sum>i<length c. c ! i * x ^ (length c - 1 - i))"
    by (rule sum.cong) (simp_all add: rev_nth)
  finally show ?thesis by (simp add: poly_eval_def)
qed

lemma dot_row:
  "dot (map (\<lambda>i. x ^ i) (rev [0 ..< length c]) @ [y]) (c @ [z]) = poly_eval c x + y * z"
proof -
  have "dot (map (\<lambda>i. x ^ i) (rev [0 ..< length c]) @ [y]) (c @ [z])
      = dot (map (\<lambda>i. x ^ i) (rev [0 ..< length c])) c + dot [y] [z]"
    by (rule dot_append) simp
  then show ?thesis by (simp add: dot_powers)
qed

lemma poly_eval_rev:
  assumes "cs \<noteq> []"
  shows "poly_eval cs x = (\<Sum>j\<le>length cs - 1. cs ! (length cs - 1 - j) * x ^ j)"
proof -
  let ?k = "length cs"
  let ?g = "\<lambda>j. cs ! (?k - 1 - j) * x ^ j"
  have "poly_eval cs x = (\<Sum>i<?k. ?g (?k - Suc i))"
    unfolding poly_eval_def by (rule sum.cong) simp_all
  also have "\<dots> = (\<Sum>i<?k. ?g i)" by (rule sum.nat_diff_reindex)
  also have "{..<?k} = {..?k - 1}" using assms by (cases cs) (simp_all add: lessThan_Suc_atMost)
  finally show ?thesis .
qed

text \<open>A polynomial of \<open>k\<close> coefficients with \<open>k\<close> roots has only zero coefficients.\<close>

lemma poly_eval_zero:
  assumes d: "distinct ns" and l: "length ns = length c"
    and z: "\<forall>n\<in>set ns. poly_eval c (of_int n) = 0"
  shows "\<forall>x\<in>set c. x = 0"
proof (rule ccontr)
  assume "\<not> (\<forall>x\<in>set c. x = 0)"
  then obtain i where i: "i < length c" "c ! i \<noteq> 0" by (metis in_set_conv_nth)
  then have ne: "c \<noteq> []" by auto
  let ?n = "length c - 1"
  let ?d = "\<lambda>j. real_of_rat (c ! (?n - j))"
  let ?R = "{z. (\<Sum>j\<le>?n. ?d j * z ^ j) = 0}"
  have "?n - (?n - i) = i" using i(1) by simp
  then have "?d (?n - i) \<noteq> 0" using i(2) by simp
  moreover have "?n - i \<le> ?n" by simp
  ultimately have R: "finite ?R \<and> card ?R \<le> ?n" by (rule polyfun_rootbound)
  have sub: "real_of_int ` set ns \<subseteq> ?R"
  proof
    fix z assume "z \<in> real_of_int ` set ns"
    then obtain n where n: "n \<in> set ns" "z = real_of_int n" by auto
    have "(\<Sum>j\<le>?n. ?d j * z ^ j) = real_of_rat (\<Sum>j\<le>?n. c ! (?n - j) * of_int n ^ j)"
      by (simp add: n(2) of_rat_sum of_rat_mult of_rat_power)
    also have "\<dots> = real_of_rat (poly_eval c (of_int n))" by (simp add: poly_eval_rev [OF ne])
    finally show "z \<in> ?R" using z n(1) by simp
  qed
  have "card (real_of_int ` set ns) = card (set ns)"
    by (rule card_image) (simp add: inj_on_def)
  also have "\<dots> = length c" using d l by (simp add: distinct_card)
  finally have "length c \<le> card ?R" using sub R by (metis card_mono)
  then show False using R ne by (cases c) simp_all
qed

lemma poly_eval_sub:
  "length cs = length ds \<Longrightarrow>
   poly_eval (map2 (\<lambda>a b. a - b) cs ds) x = poly_eval cs x - poly_eval ds x"
  by (simp add: poly_eval_def sum_subtractf [symmetric] left_diff_distrib)

text \<open>Two polynomials of \<open>k\<close> coefficients that agree at \<open>k\<close> points are the same.\<close>

lemma poly_eval_unique:
  assumes d: "distinct ns" and l: "length ns = length cs" "length ds = length cs"
    and e: "\<forall>n\<in>set ns. poly_eval cs (of_int n) = poly_eval ds (of_int n)"
  shows "cs = ds"
proof -
  let ?c = "map2 (\<lambda>a b. a - b) cs ds"
  have "\<forall>x\<in>set ?c. x = 0"
  proof (rule poly_eval_zero [OF d])
    show "length ns = length ?c" using l by simp
    show "\<forall>n\<in>set ns. poly_eval ?c (of_int n) = 0"
      using e l by (simp add: poly_eval_sub)
  qed
  then have "\<forall>i<length cs. cs ! i - ds ! i = 0"
    using l by (metis (no_types, lifting) length_map length_zip min.idem nth_map nth_mem nth_zip
        old.prod.case)
  then show ?thesis using l by (simp add: nth_equalityI)
qed





lemma power_bound:
  fixes x :: int
  assumes "\<bar>x\<bar> ^ (k - 1) < 2 ^ 53" "i < k"
  shows "\<bar>x ^ i\<bar> < 2 ^ 53"
proof (cases "x = 0")
  case True
  then show ?thesis by (cases i) simp_all
next
  case False
  then have "1 \<le> \<bar>x\<bar>" by simp
  moreover have "i \<le> k - 1" using assms(2) by simp
  ultimately have "\<bar>x\<bar> ^ i \<le> \<bar>x\<bar> ^ (k - 1)" by (rule power_increasing [rotated])
  then show ?thesis using assms(1) by (simp add: power_abs)
qed

lemma zip_map_same: "zip (map f xs) (map g xs) = map (\<lambda>x. (f x, g x)) xs"
  by (induction xs) simp_all

text \<open>
  The reconstruction from points with distinct whole abscissas whose powers are exact: the
  rows handed to the solver are those of the Vandermonde system, which the elimination
  solves.
\<close>

lemma reconstruct_points:
  assumes own: "own_entries sel = points_of qs"
    and d: "distinct (map fst qs)"
    and b: "\<forall>p\<in>set qs. \<bar>fst p\<bar> ^ (length qs - 1) < 2 ^ 53"
  shows "\<exists>sol. reconstructPolynomial lusolve_exact sel = Inr (map Fin sol)
           \<and> length sol = length qs
           \<and> (\<forall>p\<in>set qs. poly_eval sol (of_int (fst p)) = snd p)"
proof -
  let ?k = "length qs"
  let ?A = "map (\<lambda>p. map (\<lambda>i. Fin (of_int (fst p) ^ i)) (rev [0 ..< ?k])) qs"
  let ?ys = "map (\<lambda>p. Fin (snd p)) qs"
  let ?row = "\<lambda>p. map (\<lambda>i. of_int (fst p) ^ i) (rev [0 ..< ?k]) @ [snd p]"
  let ?rows = "map ?row qs"
  have pw: "js_pow (Fin (of_int (fst p))) i = Fin (of_int (fst p) ^ i)"
    if "p \<in> set qs" "i < ?k" for p i
  proof -
    have "\<bar>fst p\<bar> ^ (?k - 1) < 2 ^ 53" using b that(1) by blast
    then have "\<bar>fst p ^ i\<bar> < 2 ^ 53" using that(2) by (rule power_bound)
    then have "js_pow (Fin (of_int (fst p))) i = Fin (of_int (fst p ^ i))" by (rule js_pow_small)
    then show ?thesis by simp
  qed
  have A: "map (\<lambda>p. map (js_pow (Fin (of_int (fst p)))) (rev [0 ..< ?k])) qs = ?A"
    by (intro map_cong refl) (simp add: pw)
  have rec: "reconstructPolynomial lusolve_exact sel = lusolve_exact ?A ?ys"
    unfolding reconstructPolynomial_def own
    by (simp add: points_of_def key_number_def comp_def A)
  have fin: "list_all (list_all is_fin) ?A \<and> list_all is_fin ?ys"
    by (simp add: list_all_iff is_fin_def)
  have rows: "map2 (\<lambda>r y. map fin_val r @ [fin_val y]) ?A ?ys = ?rows"
    by (simp add: zip_map_same fin_val_def comp_def)
  have len: "\<forall>r\<in>set ?rows. length r = Suc ?k" by simp
  have eq: "dot (?row p) (c @ [z]) = poly_eval c (of_int (fst p)) + snd p * z"
    if "length c = ?k" for p c z
    using dot_row [of "of_int (fst p)" c "snd p" z] that by simp
  have ker: "\<forall>c. length c = ?k \<longrightarrow> (\<forall>r\<in>set ?rows. dot r (c @ [0]) = 0) \<longrightarrow> (\<forall>x\<in>set c. x = 0)"
  proof (intro allI impI)
    fix c :: "rat list" assume c: "length c = ?k" and k: "\<forall>r\<in>set ?rows. dot r (c @ [0]) = 0"
    have "\<forall>n\<in>set (map fst qs). poly_eval c (of_int n) = 0"
    proof
      fix n assume "n \<in> set (map fst qs)"
      then obtain p where p: "p \<in> set qs" "n = fst p" by auto
      then have "dot (?row p) (c @ [0]) = 0" using k by simp
      then show "poly_eval c (of_int n) = 0" using eq [OF c, of p 0] p(2) by simp
    qed
    then show "\<forall>x\<in>set c. x = 0" using d c by (intro poly_eval_zero [of "map fst qs"]) simp_all
  qed
  have "\<exists>sol. gauss ?k ?rows = Some sol"
    using len _ ker by (rule gauss_complete) simp
  then obtain sol where g: "gauss ?k ?rows = Some sol" by blast
  have "length sol = ?k \<and> (\<forall>r\<in>set ?rows. dot r (sol @ [- 1]) = 0)"
    using g _ len by (rule gauss_sound) simp
  then have l: "length sol = ?k" and s: "\<forall>r\<in>set ?rows. dot r (sol @ [- 1]) = 0" by simp_all
  have "\<forall>p\<in>set qs. poly_eval sol (of_int (fst p)) = snd p"
  proof
    fix p assume p: "p \<in> set qs"
    then have "dot (?row p) (sol @ [- 1]) = 0" using s by simp
    then show "poly_eval sol (of_int (fst p)) = snd p" using eq [OF l, of p "- 1"] by simp
  qed
  moreover have "lusolve_exact ?A ?ys = Inr (map Fin sol)"
    unfolding lusolve_exact_def using fin g by (simp only: rows length_map if_True) simp
  ultimately show ?thesis using rec l by auto
qed





section \<open>The round trip\<close>

lemma fold_obj_set_distinct:
  "distinct (map f es) \<Longrightarrow>
   foldl (\<lambda>sh p. obj_set sh (f p) (g p)) [] es = map (\<lambda>p. (f p, g p)) es"
proof (induction es rule: rev_induct)
  case Nil
  show ?case by simp
next
  case (snoc p es)
  then have "f p \<notin> fst ` set (map (\<lambda>p. (f p, g p)) es)" by (auto simp: image_iff)
  then have "obj_set (map (\<lambda>p. (f p, g p)) es) (f p) (g p) = map (\<lambda>p. (f p, g p)) es @ [(f p, g p)]"
    by (rule obj_set_fresh)
  then show ?case using snoc by simp
qed

lemma not_digit_keys: "\<not> numeral_of 10 ''keys''"
  by (simp add: numeral_of_def radix_digit_def digit_val_def)

lemma share_index_numeral:
  assumes "numeral_of 10 s" "positional_value 10 s < 2 ^ 53"
  shows "share_index s = Fin (of_nat (positional_value 10 s))"
proof -
  have "parse_text s (Fin (of_nat 10)) = to_double (int (mathInt 10 s))"
    using assms(1) by (intro parse_text_digits) (simp_all add: numeral_of_def list_all_iff)
  then show ?thesis
    using assms(2) by (simp add: share_index_def mathInt_positional to_double_nat)
qed

lemma entry_value_share:
  assumes w: "well_encoded s" and y: "share_y s < 2 ^ 53"
  shows "entry_value (snd (share_member s)) = Inr (Fin (of_nat (share_y s)))"
proof -
  let ?b = "share_base s"
  have b: "2 \<le> ?b" "?b \<le> 36" using w by (simp_all add: well_encoded_def)
  have "parse_text (fst (snd s)) (Fin (of_nat 10)) = to_double (int (mathInt 10 (fst (snd s))))"
    using w by (intro parse_text_digits) (simp_all add: well_encoded_def numeral_of_def list_all_iff)
  moreover have "?b < 2 ^ 53" using b(2) by simp
  ultimately have pb: "parse_text (fst (snd s)) (Fin 10) = Fin (of_nat ?b)"
    by (simp add: share_base_def mathInt_positional to_double_nat)
  have "parse_text (snd (snd s)) (Fin (of_nat ?b)) = to_double (int (mathInt ?b (snd (snd s))))"
    using w b by (intro parse_text_digits) (simp_all add: well_encoded_def numeral_of_def list_all_iff)
  then have pv: "parse_text (snd (snd s)) (Fin (of_nat ?b)) = Fin (of_nat (share_y s))"
    using y by (simp add: share_y_def mathInt_positional to_double_nat)
  show ?thesis
    by (simp add: entry_value_def share_member_def read_prop_def parseInt_string
        convertToDecimal_string pb pv)
qed

lemma mset_share_entries:
  assumes "\<forall>p\<in>set es. fst p \<noteq> ''keys''"
  shows "mset (share_entries ((''keys'', ks) # es)) = mset es"
proof -
  have "filter (\<lambda>p. fst p \<noteq> ''keys'') es = es" using assms by (simp add: filter_id_conv)
  then have "mset (filter (\<lambda>p. fst p \<noteq> ''keys'') es) = mset es" by simp
  then show ?thesis
    unfolding share_entries_def mset_filter mset_enum_order by simp
qed

text \<open>
  What the parser makes of a document of well encoded shares, with distinct abscissas, whose
  abscissas and ordinates are exact doubles: the object of the points, created in the order
  of enumeration of the members.
\<close>

lemma parse_share_document:
  assumes d: "distinct (map share_x shares)"
    and w: "\<forall>s\<in>set shares. well_encoded s"
    and bx: "\<forall>s\<in>set shares. share_x s < 2 ^ 53 \<and> share_y s < 2 ^ 53"
  shows "\<exists>ps. parseJsonInput (Some (share_document n k shares))
               = Inr \<lparr>parsed_n = VJson n, parsed_k = VJson k, parsed_shares = shares_of ps\<rparr>
           \<and> mset ps = mset (map (\<lambda>s. (share_x s, Fin (of_nat (share_y s)))) shares)"
proof -
  let ?ks = "JObj [(''n'', n), (''k'', k)]"
  let ?ms = "(''keys'', ?ks) # map share_member shares"
  let ?es = "share_entries ?ms"
  let ?f = "\<lambda>p :: string \<times> json. KNum (share_index (fst p))"
  let ?g = "\<lambda>p :: string \<times> json. projr (entry_value (snd p))"
  let ?X = "\<lambda>p :: string \<times> json. positional_value 10 (fst p)"
  let ?ps = "map (\<lambda>p. (?X p, ?g p)) ?es"
  have fs: "map fst (map share_member shares) = map fst shares"
    by (simp add: share_member_def comp_def)
  have "map (positional_value 10) (map fst shares) = map share_x shares"
    by (simp add: share_x_def comp_def)
  then have "distinct (map (positional_value 10) (map fst shares))" using d by (simp only:)
  then have d1: "distinct (map fst shares)" by (simp only: distinct_map)
  have nk: "\<forall>s\<in>set shares. fst s \<noteq> ''keys''"
    using w not_digit_keys by (auto simp: well_encoded_def)
  then have nk': "\<forall>p\<in>set (map share_member shares). fst p \<noteq> ''keys''"
    by (simp add: share_member_def)
  have dms: "distinct (map fst ?ms)"
    using d1 nk by (simp only: list.map fst_conv distinct.simps fs) auto
  have m: "mset ?es = mset (map share_member shares)"
    using nk' by (rule mset_share_entries)
  then have se: "set ?es = share_member ` set shares" by (metis mset_eq_setD set_map)
  have ev: "entry_value (snd (share_member s)) = Inr (Fin (of_nat (share_y s)))"
    if "s \<in> set shares" for s
    using that w bx by (intro entry_value_share) auto
  have ix: "share_index (fst (share_member s)) = Fin (of_nat (share_x s))"
    if "s \<in> set shares" for s
    using that w bx share_index_numeral [of "fst s"]
    by (simp add: share_member_def share_x_def well_encoded_def)
  have ok: "\<not> (\<exists>p\<in>set ?ms. fst p \<noteq> ''keys'' \<and> (snd p = JNull \<or> (\<exists>e. entry_value (snd p) = Inl e)))"
  proof
    assume "\<exists>p\<in>set ?ms. fst p \<noteq> ''keys'' \<and> (snd p = JNull \<or> (\<exists>e. entry_value (snd p) = Inl e))"
    then obtain p where p: "p \<in> set ?ms" "fst p \<noteq> ''keys''"
      "snd p = JNull \<or> (\<exists>e. entry_value (snd p) = Inl e)" by blast
    then obtain s where s: "s \<in> set shares" "p = share_member s" by auto
    then show False using p(3) ev [OF s(1)] by (auto simp: share_member_def)
  qed
  have loop: "parse_loop (JObj ?ms) (enum_keys (JObj ?ms)) []
              = Inr (foldl (\<lambda>sh p. obj_set sh (?f p) (?g p)) [] ?es)"
    using parse_loop_document [OF dms] ok by (simp only: if_False)
  have fX: "?f p = share_key (?X p)" if "p \<in> set ?es" for p
  proof -
    from that se obtain s where s: "s \<in> set shares" "p = share_member s" by auto
    then show ?thesis using ix [OF s(1)] by (simp add: share_key_def share_member_def share_x_def)
  qed
  have "mset (map ?X ?es) = image_mset ?X (mset (map share_member shares))"
    using m by (simp only: mset_map)
  also have "\<dots> = mset (map share_x shares)"
    by (simp add: share_member_def share_x_def [abs_def] comp_def multiset.map_comp)
  finally have "distinct (map ?X ?es)" using d by (metis mset_eq_imp_distinct_iff)
  then have "distinct (map share_key (map ?X ?es))"
    by (simp add: distinct_map inj_on_def)
  moreover have "map ?f ?es = map share_key (map ?X ?es)"
    using fX by (simp add: comp_def)
  ultimately have df: "distinct (map ?f ?es)" by (simp only:)
  have "foldl (\<lambda>sh p. obj_set sh (?f p) (?g p)) [] ?es = map (\<lambda>p. (?f p, ?g p)) ?es"
    using df by (rule fold_obj_set_distinct)
  also have "\<dots> = shares_of ?ps"
    using fX by (simp add: shares_of_def comp_def)
  finally have sh: "parse_loop (JObj ?ms) (enum_keys (JObj ?ms)) [] = Inr (shares_of ?ps)"
    using loop by simp
  have res: "parseJsonInput (Some (share_document n k shares))
      = Inr \<lparr>parsed_n = VJson n, parsed_k = VJson k, parsed_shares = shares_of ?ps\<rparr>"
    unfolding share_document_def parseJsonInput_obj sh
    by (simp add: read_prop_def)
  have "mset ?ps = image_mset (\<lambda>p. (?X p, ?g p)) (mset (map share_member shares))"
    using m by (simp only: mset_map)
  also have "\<dots> = image_mset (\<lambda>s. (?X (share_member s), ?g (share_member s))) (mset shares)"
    by (simp add: multiset.map_comp comp_def)
  also have "\<dots> = image_mset (\<lambda>s. (share_x s, Fin (of_nat (share_y s)))) (mset shares)"
  proof (rule image_mset_cong)
    fix s assume "s \<in># mset shares"
    then have "s \<in> set shares" by simp
    then have "?g (share_member s) = Fin (of_nat (share_y s))" by (simp only: ev sum.sel)
    moreover have "?X (share_member s) = share_x s" by (simp add: share_member_def share_x_def)
    ultimately show "(?X (share_member s), ?g (share_member s))
        = (share_x s, Fin (of_nat (share_y s)))" by (simp only:)
  qed
  finally have "mset ?ps = mset (map (\<lambda>s. (share_x s, Fin (of_nat (share_y s)))) shares)"
    by simp
  with res show ?thesis by blast
qed

text \<open>The system that \<open>reconstructPolynomial\<close> hands to the solver, whatever the solver.\<close>

lemma reconstruct_system:
  assumes own: "own_entries sel = points_of qs"
    and b: "\<forall>p\<in>set qs. \<bar>fst p\<bar> ^ (length qs - 1) < 2 ^ 53"
  shows "reconstructPolynomial lusolve sel
    = lusolve (map (\<lambda>p. map (\<lambda>i. Fin (of_int (fst p ^ i))) (rev [0 ..< length qs])) qs)
        (map (\<lambda>p. Fin (snd p)) qs)"
proof -
  let ?k = "length qs"
  have pw: "js_pow (Fin (of_int (fst p))) i = Fin (of_int (fst p ^ i))"
    if "p \<in> set qs" "i < ?k" for p i
  proof -
    have "\<bar>fst p\<bar> ^ (?k - 1) < 2 ^ 53" using b that(1) by blast
    then have "\<bar>fst p ^ i\<bar> < 2 ^ 53" using that(2) by (rule power_bound)
    then show ?thesis by (rule js_pow_small)
  qed
  have A: "map (\<lambda>p. map (js_pow (Fin (of_int (fst p)))) (rev [0 ..< ?k])) qs
         = map (\<lambda>p. map (\<lambda>i. Fin (of_int (fst p ^ i))) (rev [0 ..< ?k])) qs"
    by (intro map_cong refl) (simp add: pw)
  show ?thesis
    unfolding reconstructPolynomial_def own
    by (simp add: points_of_def key_number_def comp_def A)
qed

text \<open>
  Selection and reconstruction from decoded shares that lie on the polynomial \<open>coeffs\<close>:
  the \<open>k\<close> shares of smallest index are the points of the system.
\<close>

lemma select_reconstruct:
  fixes coeffs :: "rat list"
  assumes d: "distinct (map fst ps)"
    and k: "length coeffs \<le> length ps"
    and y: "\<forall>p\<in>set ps. snd p = Fin (poly_eval coeffs (of_nat (fst p)))"
    and b: "\<forall>p\<in>set ps. fst p ^ (length coeffs - 1) < 2 ^ 53"
  shows "(\<forall>lusolve. reconstructPolynomial lusolve (selectShares (shares_of ps) (length coeffs))
            = lusolve (vandermonde (take (length coeffs) (sort (map fst ps))))
                (map (\<lambda>x. Fin (poly_eval coeffs (of_nat x))) (take (length coeffs) (sort (map fst ps)))))
       \<and> reconstructPolynomial lusolve_exact (selectShares (shares_of ps) (length coeffs))
            = Inr (map Fin coeffs)"
proof -
  let ?k = "length coeffs"
  let ?sl = "take ?k (sort_key fst ps)"
  let ?sel = "shares_of (map (\<lambda>p. (fst p, Some (snd p))) ?sl)"
  let ?qs = "map (\<lambda>p. (int (fst p), poly_eval coeffs (of_nat (fst p)))) ?sl"
  have sub: "set ?sl \<subseteq> set ps" using set_take_subset [of ?k "sort_key fst ps"] by simp
  have lsl: "length ?sl = ?k" using k by simp
  have fsl: "map fst ?sl = take ?k (sort (map fst ps))"
    by (simp only: take_map [symmetric] map_fst_sort_key)
  have "selectShares (shares_of ps) ?k = ?sel @ []"
    using selectShares_object [OF d, of ?k] k by simp
  then have sel: "selectShares (shares_of ps) ?k = ?sel" by simp
  have "sorted (map fst (sort_key fst ps))" by (rule sorted_sort_key)
  then have "sorted (take ?k (map fst (sort_key fst ps)))" by (rule sorted_wrt_take)
  then have "sorted (map fst (map (\<lambda>p. (fst p, Some (snd p))) ?sl))"
    by (simp add: take_map comp_def)
  then have "enum_order array_index (?sel @ []) = ?sel @ []"
    by (rule enum_order_shares_sorted) simp
  then have own1: "own_entries ?sel = ?sel" by (simp add: own_entries_def)
  have "?sel = points_of ?qs"
    unfolding shares_of_def points_of_def map_map
    by (rule map_cong) (use y sub in \<open>auto simp: share_key_def\<close>)
  then have own: "own_entries ?sel = points_of ?qs" using own1 by simp
  have lq: "length ?qs = ?k" using lsl by simp
  have fq: "map fst ?qs = map int (map fst ?sl)" by (simp add: comp_def)
  have "distinct (map fst (sort_key fst ps))" using d by (simp add: map_fst_sort_key)
  then have "distinct (take ?k (map fst (sort_key fst ps)))" by (rule distinct_take)
  then have "distinct (map fst ?sl)" by (simp add: take_map)
  then have dq: "distinct (map fst ?qs)" unfolding fq by (simp add: distinct_map inj_on_def)
  have bq: "\<forall>q\<in>set ?qs. \<bar>fst q\<bar> ^ (length ?qs - 1) < 2 ^ 53"
  proof
    fix q assume "q \<in> set ?qs"
    then obtain p where p: "p \<in> set ?sl" "q = (int (fst p), poly_eval coeffs (of_nat (fst p)))"
      by auto
    then have "fst p ^ (?k - 1) < 2 ^ 53" using b sub by blast
    then have "int (fst p ^ (?k - 1)) < 2 ^ 53" by (simp only: of_nat_less_numeral_power_cancel_iff)
    then show "\<bar>fst q\<bar> ^ (length ?qs - 1) < 2 ^ 53" unfolding lq using p(2) by simp
  qed
  have sys: "reconstructPolynomial lusolve ?sel
      = lusolve (vandermonde (take ?k (sort (map fst ps))))
          (map (\<lambda>x. Fin (poly_eval coeffs (of_nat x))) (take ?k (sort (map fst ps))))" for lusolve
  proof -
    have "map (\<lambda>p. map (\<lambda>i. Fin (of_int (fst p ^ i))) (rev [0 ..< length ?qs])) ?qs
        = vandermonde (map fst ?sl)"
      unfolding lq using k by (simp add: vandermonde_def comp_def min_absorb2)
    moreover have "map (\<lambda>p. Fin (snd p)) ?qs
        = map (\<lambda>x. Fin (poly_eval coeffs (of_nat x))) (map fst ?sl)"
      by (simp add: comp_def)
    ultimately show ?thesis
      using reconstruct_system [OF own bq, of lusolve] by (simp only: fsl)
  qed
  from reconstruct_points [OF own dq bq] obtain sol where
    r: "reconstructPolynomial lusolve_exact ?sel = Inr (map Fin sol)"
    and l: "length sol = length ?qs"
    and e: "\<forall>q\<in>set ?qs. poly_eval sol (of_int (fst q)) = snd q"
    by blast
  have "sol = coeffs"
  proof (rule poly_eval_unique [of "map fst ?qs"])
    show "distinct (map fst ?qs)" by (rule dq)
    show "length (map fst ?qs) = length sol" using l by simp
    show "length coeffs = length sol" using l lq by simp
    show "\<forall>n\<in>set (map fst ?qs). poly_eval sol (of_int n) = poly_eval coeffs (of_int n)"
    proof
      fix n assume "n \<in> set (map fst ?qs)"
      then have "n \<in> (\<lambda>p. int (fst p)) ` set ?sl" by (simp only: fq set_map image_image)
      then obtain p where p: "p \<in> set ?sl" "n = int (fst p)" by blast
      let ?q = "(int (fst p), poly_eval coeffs (of_nat (fst p)))"
      have "?q \<in> (\<lambda>p. (int (fst p), poly_eval coeffs (of_nat (fst p)))) ` set ?sl"
        using p(1) by (rule imageI)
      then have "?q \<in> set ?qs" by (simp only: set_map)
      then have "poly_eval sol (of_int (fst ?q)) = snd ?q" using e by blast
      then show "poly_eval sol (of_int n) = poly_eval coeffs (of_int n)"
        using p(2) by simp
    qed
  qed
  with r sys show ?thesis by (simp only: sel) simp
qed

text \<open>
  C1, as amended. Take a polynomial of \<open>k\<close> coefficients, \<open>k \<ge> 1\<close>, and a document of at
  least \<open>k\<close> well encoded shares of it, at distinct abscissas: the threshold of the document
  is \<open>k\<close>, each key is the decimal numeral of an abscissa \<open>x\<close>, each base the decimal numeral
  of a number from 2 to 36, each value a numeral in that base of the value of the polynomial
  at \<open>x\<close>. Let the abscissas, their powers up to \<open>k - 1\<close> and the values be exact doubles
  (below \<open>2 ^ 53\<close>). Then the pipeline decodes the document without error, and hands to the
  solver, whatever the solver, the exact system of the \<open>k\<close> smallest abscissas: the matrix
  of their powers and the column of the values of the polynomial at them. When the linear
  system is solved exactly, the coefficients it returns are the original ones.
\<close>

theorem round_trip:
  fixes coeffs :: "rat list"
  assumes "coeffs \<noteq> []"
    and "numeral_of 10 kt" "positional_value 10 kt = length coeffs"
    and "length coeffs \<le> length shares"
    and "distinct (map share_x shares)"
    and "\<forall>s\<in>set shares. well_encoded s
           \<and> of_nat (share_y s) = poly_eval coeffs (of_nat (share_x s))"
    and "\<forall>s\<in>set shares. share_y s < 2 ^ 53 \<and> share_x s < 2 ^ 53
           \<and> share_x s ^ (length coeffs - 1) < 2 ^ 53"
  shows "\<exists>r. parseJsonInput (Some (share_document n (JNum kt) shares)) = Inr r
     \<and> parsed_k r = VJson (JNum kt)
     \<and> (\<forall>lusolve. reconstructPolynomial lusolve (selectShares (parsed_shares r) (length coeffs))
            = lusolve (vandermonde (take (length coeffs) (sort (map share_x shares))))
                (map (\<lambda>x. Fin (poly_eval coeffs (of_nat x)))
                   (take (length coeffs) (sort (map share_x shares)))))
     \<and> reconstructPolynomial lusolve_exact (selectShares (parsed_shares r) (length coeffs))
         = Inr (map Fin coeffs)"
proof -
  let ?pt = "\<lambda>s. (share_x s, Fin (of_nat (share_y s)))"
  have w: "\<forall>s\<in>set shares. well_encoded s" using assms(6) by blast
  have bx: "\<forall>s\<in>set shares. share_x s < 2 ^ 53 \<and> share_y s < 2 ^ 53" using assms(7) by blast
  from parse_share_document [OF assms(5) w bx, of n "JNum kt"] obtain ps where
    res: "parseJsonInput (Some (share_document n (JNum kt) shares))
          = Inr \<lparr>parsed_n = VJson n, parsed_k = VJson (JNum kt), parsed_shares = shares_of ps\<rparr>"
    and m: "mset ps = mset (map ?pt shares)"
    by blast
  from m have s: "set ps = ?pt ` set shares" by (metis mset_eq_setD set_map)
  from m have l: "length ps = length shares" by (metis size_mset length_map)
  have "mset (map fst ps) = image_mset fst (mset (map ?pt shares))"
    using m by (simp only: mset_map)
  then have mf: "mset (map fst ps) = mset (map share_x shares)"
    by (simp add: comp_def multiset.map_comp)
  then have d: "distinct (map fst ps)" using assms(5) by (metis mset_eq_imp_distinct_iff)
  have k: "length coeffs \<le> length ps" using assms(4) l by simp
  have y: "\<forall>p\<in>set ps. snd p = Fin (poly_eval coeffs (of_nat (fst p)))"
    using s assms(6) by auto
  have b: "\<forall>p\<in>set ps. fst p ^ (length coeffs - 1) < 2 ^ 53"
    using s assms(7) by auto
  have so: "sort (map fst ps) = sort (map share_x shares)" using mf by (rule sort_mset_cong)
  let ?r = "\<lparr>parsed_n = VJson n, parsed_k = VJson (JNum kt), parsed_shares = shares_of ps\<rparr>"
  note sr = select_reconstruct [OF d k y b, unfolded so]
  have e2: "parsed_k ?r = VJson (JNum kt)" by simp
  have sh: "parsed_shares ?r = shares_of ps" by simp
  have e3: "\<forall>lusolve. reconstructPolynomial lusolve (selectShares (parsed_shares ?r) (length coeffs))
            = lusolve (vandermonde (take (length coeffs) (sort (map share_x shares))))
                (map (\<lambda>x. Fin (poly_eval coeffs (of_nat x)))
                   (take (length coeffs) (sort (map share_x shares))))"
    unfolding sh by (rule sr [THEN conjunct1])
  have e4: "reconstructPolynomial lusolve_exact (selectShares (parsed_shares ?r) (length coeffs))
         = Inr (map Fin coeffs)"
    unfolding sh by (rule sr [THEN conjunct2])
  show ?thesis by (rule exI [of _ ?r]) (intro conjI res e2 e3 e4)
qed

lemma poly_eval_3: "poly_eval [a, b, c] x = a * x ^ 2 + b * x + c"
  by (simp add: poly_eval_def lessThan_Suc numeral_eq_Suc)

lemma positional_small:
  "positional_value 10 ''1'' = 1" "positional_value 10 ''2'' = 2" "positional_value 10 ''3'' = 3"
  "positional_value 10 ''4'' = 4" "positional_value 10 ''10'' = 10"
  "positional_value 10 ''16'' = 16" "positional_value 10 ''36'' = 36"
  "positional_value 10 ''13'' = 13" "positional_value 2 ''100'' = 4"
  "positional_value 16 ''9'' = 9" "positional_value 36 ''6'' = 6"
  by (simp_all add: mathInt_positional [symmetric] mathInt_def digit_of_def digit_val_def)

theorem round_trip_witness:
  "\<exists>r. parseJsonInput (Some (JObj
       [(''keys'', JObj [(''n'', JNum ''4''), (''k'', JNum ''3'')]),
        (''3'', JObj [(''base'', JStr ''16''), (''value'', JStr ''9'')]),
        (''1'', JObj [(''base'', JStr ''2''), (''value'', JStr ''100'')]),
        (''4'', JObj [(''base'', JStr ''10''), (''value'', JStr ''13'')]),
        (''2'', JObj [(''base'', JStr ''36''), (''value'', JStr ''6'')])])) = Inr r
     \<and> parsed_k r = VJson (JNum ''3'')
     \<and> reconstructPolynomial lusolve_exact (selectShares (parsed_shares r) 3)
         = Inr [Fin (1 / 2), Fin (1 / 2), Fin 3]"
proof -
  let ?shares = "[(''3'', ''16'', ''9''), (''1'', ''2'', ''100''), (''4'', ''10'', ''13''),
                  (''2'', ''36'', ''6'')]"
  let ?coeffs = "[1 / 2, 1 / 2, 3] :: rat list"
  have h: "?coeffs \<noteq> []" "numeral_of 10 ''3''" "positional_value 10 ''3'' = length ?coeffs"
    "length ?coeffs \<le> length ?shares"
    "distinct (map share_x ?shares)"
    "\<forall>s\<in>set ?shares. well_encoded s
       \<and> of_nat (share_y s) = poly_eval ?coeffs (of_nat (share_x s))"
    "\<forall>s\<in>set ?shares. share_y s < 2 ^ 53 \<and> share_x s < 2 ^ 53
       \<and> share_x s ^ (length ?coeffs - 1) < 2 ^ 53"
    by (simp_all add: numeral_of_def radix_digit_def digit_val_def share_x_def share_y_def
        share_base_def well_encoded_def positional_small poly_eval_3)
  have len: "length ?coeffs = 3" by simp
  have mc: "map Fin ?coeffs = [Fin (1 / 2), Fin (1 / 2), Fin 3]" by simp
  have doc: "share_document (JNum ''4'') (JNum ''3'') ?shares
      = JObj [(''keys'', JObj [(''n'', JNum ''4''), (''k'', JNum ''3'')]),
        (''3'', JObj [(''base'', JStr ''16''), (''value'', JStr ''9'')]),
        (''1'', JObj [(''base'', JStr ''2''), (''value'', JStr ''100'')]),
        (''4'', JObj [(''base'', JStr ''10''), (''value'', JStr ''13'')]),
        (''2'', JObj [(''base'', JStr ''36''), (''value'', JStr ''6'')])]"
    by (simp add: share_document_def share_member_def)
  from round_trip [OF h, of "JNum ''4''"] show ?thesis
    unfolding len mc doc by blast
qed

lemma bit_length_2_53_3: "bit_length 9007199254740995 = 54" "bit_length 9007199254740994 = 54"
  by (simp_all add: bit_length.simps)

lemma to_double_2_53_3:
  "to_double 9007199254740995 = Fin 9007199254740996"
  "to_double 9007199254740994 = Fin 9007199254740994"
  by (simp_all add: to_double_def round_nat_def bit_length_2_53_3 Let_def)

lemma mathInt_2_53_3:
  "mathInt 10 ''9007199254740995'' = 9007199254740995"
  "mathInt 10 ''9007199254740994'' = 9007199254740994"
  by (simp_all add: mathInt_def digit_of_def digit_val_def)

lemma parse_text_2_53_3:
  "parse_text ''9007199254740995'' (Fin 10) = Fin 9007199254740996"
  "parse_text ''9007199254740994'' (Fin 10) = Fin 9007199254740994"
proof -
  have "parse_text ''9007199254740995'' (Fin (of_nat 10))
      = to_double (int (mathInt 10 ''9007199254740995''))"
    by (rule parse_text_digits) (simp_all add: radix_digit_def digit_val_def)
  then show "parse_text ''9007199254740995'' (Fin 10) = Fin 9007199254740996"
    by (simp add: mathInt_2_53_3 to_double_2_53_3)
  have "parse_text ''9007199254740994'' (Fin (of_nat 10))
      = to_double (int (mathInt 10 ''9007199254740994''))"
    by (rule parse_text_digits) (simp_all add: radix_digit_def digit_val_def)
  then show "parse_text ''9007199254740994'' (Fin 10) = Fin 9007199254740994"
    by (simp add: mathInt_2_53_3 to_double_2_53_3)
qed

lemma parse_text_2: "parse_text ''2'' (Fin 10) = Fin 2"
  by (simp add: parse_text_def ToInt32_def trunc_rat_def is_ws_def has_0x_def radix_digit_def
      digit_val_def mathInt_def digit_of_def to_double_def round_nat_def bit_length.simps Let_def)

lemma string_index_2: "string_index ''2'' = Some 2"
  by (simp add: string_index_def radix_digit_def digit_val_def mathInt_def digit_of_def)

lemma lusolve_2_53: 
  "lusolve_exact [[Fin 1, Fin 1], [Fin 2, Fin 1]] [Fin 9007199254740994, Fin 9007199254740996]
   = Inr [Fin 2, Fin 9007199254740992]"
  by code_simp

lemma poly_eval_2: "poly_eval [a, b] x = a * x + b"
  by (simp add: poly_eval_def lessThan_Suc numeral_eq_Suc)

theorem round_trip_counterexample:
  "poly_eval [1, 9007199254740993] 1 = of_nat (positional_value 10 ''9007199254740994'')
   \<and> poly_eval [1, 9007199254740993] 2 = of_nat (positional_value 10 ''9007199254740995'')
   \<and> parseJsonInput (Some (JObj
       [(''keys'', JObj [(''n'', JNum ''2''), (''k'', JNum ''2'')]),
        (''1'', JObj [(''base'', JStr ''10''), (''value'', JStr ''9007199254740994'')]),
        (''2'', JObj [(''base'', JStr ''10''), (''value'', JStr ''9007199254740995'')])]))
     = Inr \<lparr>parsed_n = VJson (JNum ''2''), parsed_k = VJson (JNum ''2''),
            parsed_shares = [(KNum (Fin 1), Fin 9007199254740994),
                             (KNum (Fin 2), Fin 9007199254740996)]\<rparr>
   \<and> reconstructPolynomial lusolve_exact
       (selectShares [(KNum (Fin 1), Fin 9007199254740994), (KNum (Fin 2), Fin 9007199254740996)] 2)
     = Inr [Fin 2, Fin 9007199254740992]"
proof (intro conjI)
  show "poly_eval [1, 9007199254740993] 1 = of_nat (positional_value 10 ''9007199254740994'')"
    by (simp add: poly_eval_2 mathInt_positional [symmetric] mathInt_2_53_3)
  show "poly_eval [1, 9007199254740993] 2 = of_nat (positional_value 10 ''9007199254740995'')"
    by (simp add: poly_eval_2 mathInt_positional [symmetric] mathInt_2_53_3)
  let ?ms = "[(''keys'', JObj [(''n'', JNum ''2''), (''k'', JNum ''2'')]),
        (''1'', JObj [(''base'', JStr ''10''), (''value'', JStr ''9007199254740994'')]),
        (''2'', JObj [(''base'', JStr ''10''), (''value'', JStr ''9007199254740995'')])]"
  have e: "enum_keys (JObj ?ms) = [''1'', ''2'', ''keys'']"
    by (simp add: enum_keys_def enum_order_def string_index_keys string_index_1 string_index_2
        index_or_0_def)
  show "parseJsonInput (Some (JObj ?ms))
     = Inr \<lparr>parsed_n = VJson (JNum ''2''), parsed_k = VJson (JNum ''2''),
            parsed_shares = [(KNum (Fin 1), Fin 9007199254740994),
                             (KNum (Fin 2), Fin 9007199254740996)]\<rparr>"
    by (simp add: parseJsonInput_def get_prop_def read_prop_def e convertToDecimal_def
        parseInt_def parse_text_1 parse_text_2 parse_text_10 parse_text_2_53_3)
  let ?ps = "[(1, Fin 9007199254740994), (2, Fin 9007199254740996)] :: (nat \<times> jsnum) list"
  let ?qs = "[(1, 9007199254740994), (2, 9007199254740996)] :: (int \<times> rat) list"
  have "selectShares (shares_of ?ps) 2
      = shares_of (map (\<lambda>p. (fst p, Some (snd p))) (take 2 (sort_key fst ?ps))) @ []"
    using selectShares_object [of ?ps 2] by simp
  then have sel: "selectShares [(KNum (Fin 1), Fin 9007199254740994),
        (KNum (Fin 2), Fin 9007199254740996)] 2 = points_of ?qs"
    by (simp add: shares_of_def share_key_def points_of_def)
  have "enum_order array_index (shares_of [(1, Some (Fin 9007199254740994)),
      (2, Some (Fin 9007199254740996))] @ []) = shares_of [(1, Some (Fin 9007199254740994)),
      (2, Some (Fin 9007199254740996))] @ []"
    by (rule enum_order_shares_sorted) simp_all
  then have own: "own_entries (points_of ?qs) = points_of ?qs"
    by (simp add: own_entries_def shares_of_def share_key_def points_of_def)
  have b: "\<forall>p\<in>set ?qs. \<bar>fst p\<bar> ^ (length ?qs - 1) < 2 ^ 53" by simp
  have u: "rev [0 ..< 2] = [Suc 0, 0]" by (simp add: upt_conv_Cons)
  have "reconstructPolynomial lusolve_exact (points_of ?qs)
      = lusolve_exact [[Fin 1, Fin 1], [Fin 2, Fin 1]] [Fin 9007199254740994, Fin 9007199254740996]"
    using reconstruct_system [OF own b, of lusolve_exact] by (simp add: u)
  then show "reconstructPolynomial lusolve_exact
       (selectShares [(KNum (Fin 1), Fin 9007199254740994), (KNum (Fin 2), Fin 9007199254740996)] 2)
     = Inr [Fin 2, Fin 9007199254740992]"
    by (simp only: sel lusolve_2_53)
qed

end
